theory Spec2Isabelle
  imports Complex_Main
begin

section \<open>The real-time data manager of \<^verbatim>\<open>src/lib/real-time-data.ts\<close>\<close>

text \<open>
  The class \<^verbatim>\<open>RealTimeDataManager\<close> keeps four maps (cache, loaders, subscribers,
  refreshIntervals) and runs on a single-threaded event loop. Every synchronous block of
  the source is one function of the model here: it takes the manager and the value of
  \<^verbatim>\<open>Date.now()\<close> in that block and returns the manager it leaves behind. An
  \<^verbatim>\<open>await\<close> ends a block; what runs after it is a second function, so that other
  blocks can be placed in between.

  Times are in milliseconds. \<^verbatim>\<open>Date.now()\<close> is an integer and has one value
  throughout a block. The products \<^verbatim>\<open>maxAge * 0.8\<close> (4000 and 24000) and the pauses
  \<^verbatim>\<open>Math.pow(1.5, attempt) * 1000\<close> of the retry loop (1000, 1500 and 2250) are exact
  in the source's doubles, and are rationals in the model. \<^verbatim>\<open>destroy\<close> is left out:
  no property below is about it, and it is not to be called while calls are pending.
\<close>

subsection \<open>Values and errors\<close>

text \<open>
  The cached data has type \<^verbatim>\<open>any\<close>. The source tests it for truthiness
  (\<^verbatim>\<open>if (cached)\<close>), so the model distinguishes the falsy values. Objects are
  handed out by reference and are always truthy.
\<close>

datatype jsval = JNull | JBool bool | JNum int | JStr string | JObj nat

fun truthy :: "jsval \<Rightarrow> bool" where
  "truthy JNull = False"
| "truthy (JBool b) = b"
| "truthy (JNum n) = (n \<noteq> 0)"
| "truthy (JStr s) = (s \<noteq> [])"
| "truthy (JObj r) = True"

text \<open>
  What a promise can reject with: whatever the fetcher threw, the error object built in
  \<^verbatim>\<open>waitForLoader\<close>, or \<^verbatim>\<open>undefined\<close> (the initial content of
  \<^verbatim>\<open>lastError\<close>).
\<close>

datatype error = FetcherError string | LoaderNoData | Undefined

type_synonym outcome = "error + jsval"

type_synonym key = string

type_synonym callback = nat

subsection \<open>The data model\<close>

record CacheEntry =
  data :: jsval
  timestamp :: int
  expiresAt :: int

text \<open>
  \<^verbatim>\<open>retryAfter\<close> is a double that is not an integer in general. The model holds its
  value where the source's arithmetic is exact in doubles, and otherwise only that it is
  the outcome of rounded arithmetic.
\<close>

datatype double = Exact rat | Rounded

record LoaderState =
  isLoading :: bool
  lastFetch :: int
  errorCount :: nat
  retryAfter :: "double option"

text \<open>The options bag of \<^verbatim>\<open>fetchData\<close>; every field may be absent.\<close>

record Options =
  cacheDuration :: "int option"
  critical :: "bool option"
  autoRefresh :: "bool option"
  retryOnError :: "bool option"

text \<open>
  A timer armed by \<^verbatim>\<open>setInterval\<close>: the closure it runs captures the key, the
  fetcher (a reference) and the options of the call that armed it.
\<close>

record Timer =
  timerKey :: key
  timerFetcher :: nat
  timerOptions :: Options
  timerPeriod :: int

text \<open>
  The manager. \<open>timers\<close> and \<open>nextHandle\<close> belong to the runtime rather than
  to the class: the interval timers that are armed, by handle, and the next handle
  \<^verbatim>\<open>setInterval\<close> gives out. Handles start at 1, so that the source's tests
  \<^verbatim>\<open>if (interval)\<close> hold of every handle that is recorded. A subscriber set is a
  list without repetition, in insertion order, which is the order \<^verbatim>\<open>Set.forEach\<close>
  visits.
\<close>

record Manager =
  cache :: "key \<rightharpoonup> CacheEntry"
  loaders :: "key \<rightharpoonup> LoaderState"
  subscribers :: "key \<rightharpoonup> callback list"
  refreshIntervals :: "key \<rightharpoonup> nat"
  timers :: "nat \<rightharpoonup> Timer"
  nextHandle :: nat

definition newManager :: Manager where
  "newManager = \<lparr>cache = Map.empty, loaders = Map.empty, subscribers = Map.empty,
     refreshIntervals = Map.empty, timers = Map.empty, nextHandle = 1\<rparr>"

definition defaultCacheDuration :: int where
  "defaultCacheDuration = 30000"

definition criticalDataCacheDuration :: int where
  "criticalDataCacheDuration = 5000"

definition maxRetries :: nat where
  "maxRetries = 3"

definition backoffMultiplier :: rat where
  "backoffMultiplier = 3 / 2"

text \<open>What a run does besides changing the manager, in order.\<close>

datatype event =
    Invoke key
  | Sleep rat
  | Notify callback jsval
  | LogSubscriberError callback
  | LogFetchFailed key error
  | WarnUsingCache key
  | LogAutoRefreshFailed key error


subsection \<open>Private helpers\<close>

definition getFromCache :: "Manager \<Rightarrow> int \<Rightarrow> key \<Rightarrow> Manager \<times> jsval" where
  "getFromCache m now k =
     (case cache m k of
        None \<Rightarrow> (m, JNull)
      | Some entry \<Rightarrow>
          if now > expiresAt entry then (m\<lparr>cache := (cache m)(k := None)\<rparr>, JNull)
          else (m, data entry))"

definition setCache :: "Manager \<Rightarrow> int \<Rightarrow> key \<Rightarrow> jsval \<Rightarrow> int \<Rightarrow> Manager" where
  "setCache m now k d duration =
     m\<lparr>cache := (cache m)(k \<mapsto> \<lparr>data = d, timestamp = now, expiresAt = now + duration\<rparr>)\<rparr>"

definition shouldRefresh :: "Manager \<Rightarrow> int \<Rightarrow> key \<Rightarrow> bool \<Rightarrow> bool" where
  "shouldRefresh m now k crit =
     (case cache m k of
        None \<Rightarrow> True
      | Some entry \<Rightarrow>
          (let age = now - timestamp entry;
               maxAge = (if crit then criticalDataCacheDuration else defaultCacheDuration)
           in (of_int age :: rat) > of_int maxAge * (8 / 10)))"

definition getLoaderState :: "Manager \<Rightarrow> key \<Rightarrow> LoaderState" where
  "getLoaderState m k =
     (case loaders m k of
        Some st \<Rightarrow> st
      | None \<Rightarrow> \<lparr>isLoading = False, lastFetch = 0, errorCount = 0, retryAfter = None\<rparr>)"

definition setLoaderState :: "Manager \<Rightarrow> key \<Rightarrow> LoaderState \<Rightarrow> Manager" where
  "setLoaderState m k st = m\<lparr>loaders := (loaders m)(k \<mapsto> st)\<rparr>"

subsection \<open>The retry policy\<close>

text \<open>
  The fetcher is the caller's: the model takes what its successive invocations within one
  call settle to, \<open>fetcher i\<close> for the invocation number \<open>i\<close> (from 0); every
  invocation is taken to settle. The loop of \<^verbatim>\<open>executeWithRetry\<close> makes one
  invocation per round, so the round number is the invocation number.
\<close>

function retryLoop :: "key \<Rightarrow> (nat \<Rightarrow> outcome) \<Rightarrow> nat \<Rightarrow> error option \<Rightarrow> outcome \<times> event list" where
  "retryLoop k fetcher attempt lastError =
     (if attempt \<le> maxRetries then
        (case fetcher attempt of
           Inr v \<Rightarrow> (Inr v, [Invoke k])
         | Inl e \<Rightarrow>
             (let pause = (if attempt < maxRetries
                           then [Sleep (backoffMultiplier ^ attempt * 1000)] else []);
                  rest = retryLoop k fetcher (attempt + 1) (Some e)
              in (fst rest, Invoke k # pause @ snd rest)))
      else (case lastError of Some e \<Rightarrow> (Inl e, []) | None \<Rightarrow> (Inl Undefined, [])))"
  by pat_completeness auto
termination
  by (relation "measure (\<lambda>(k, fetcher, attempt, lastError). Suc maxRetries - attempt)") auto

declare retryLoop.simps [simp del]

definition executeWithRetry ::
  "Manager \<Rightarrow> (nat \<Rightarrow> outcome) \<Rightarrow> key \<Rightarrow> bool \<Rightarrow> outcome \<times> event list" where
  "executeWithRetry m fetcher k retryOnErr =
     (let state = getLoaderState m k
      in if \<not> retryOnErr \<or> errorCount state \<ge> maxRetries then (fetcher 0, [Invoke k])
         else retryLoop k fetcher 0 None)"

subsection \<open>Subscribers and the auto-refresh timer\<close>

text \<open>
  A subscriber callback is the caller's too: \<open>throws cb d\<close> says whether the callback
  \<open>cb\<close> throws when called with \<open>d\<close>. Callbacks are taken not to call back
  into the manager while it notifies them.
\<close>

fun notifyEach :: "(callback \<Rightarrow> jsval \<Rightarrow> bool) \<Rightarrow> callback list \<Rightarrow> jsval \<Rightarrow> event list" where
  "notifyEach throws [] d = []"
| "notifyEach throws (cb # cbs) d =
     Notify cb d # (if throws cb d then [LogSubscriberError cb] else []) @ notifyEach throws cbs d"

definition notifySubscribers ::
  "(callback \<Rightarrow> jsval \<Rightarrow> bool) \<Rightarrow> Manager \<Rightarrow> key \<Rightarrow> jsval \<Rightarrow> event list" where
  "notifySubscribers throws m k d =
     (case subscribers m k of
        Some subs \<Rightarrow> notifyEach throws subs d
      | None \<Rightarrow> [])"

definition subscribe :: "Manager \<Rightarrow> key \<Rightarrow> callback \<Rightarrow> Manager" where
  "subscribe m k cb =
     (let m1 = (if subscribers m k = None then m\<lparr>subscribers := (subscribers m)(k \<mapsto> [])\<rparr> else m)
      in case subscribers m1 k of
           None \<Rightarrow> m1
         | Some subs \<Rightarrow>
             m1\<lparr>subscribers := (subscribers m1)(k \<mapsto> (if cb \<in> set subs then subs else subs @ [cb]))\<rparr>)"

text \<open>The function \<^verbatim>\<open>subscribe\<close> returns, called: it closes over the key and the callback.\<close>

definition unsubscribe :: "Manager \<Rightarrow> key \<Rightarrow> callback \<Rightarrow> Manager" where
  "unsubscribe m k cb =
     (case subscribers m k of
        None \<Rightarrow> m
      | Some subs \<Rightarrow>
          (let subs' = removeAll cb subs;
               m1 = m\<lparr>subscribers := (subscribers m)(k \<mapsto> subs')\<rparr>
           in if length subs' = 0 then
                (let m2 = m1\<lparr>subscribers := (subscribers m1)(k := None)\<rparr>
                 in case refreshIntervals m2 k of
                      Some interval \<Rightarrow>
                        m2\<lparr>timers := (timers m2)(interval := None),
                           refreshIntervals := (refreshIntervals m2)(k := None)\<rparr>
                    | None \<Rightarrow> m2)
              else m1))"

text \<open>
  \<^verbatim>\<open>options.cacheDuration || this.defaultCacheDuration\<close>: an absent duration and
  the duration 0 both give the default period.
\<close>

definition setupAutoRefresh :: "Manager \<Rightarrow> key \<Rightarrow> nat \<Rightarrow> Options \<Rightarrow> Manager" where
  "setupAutoRefresh m k fetcherRef options =
     (let m1 = (case refreshIntervals m k of
                  Some existingInterval \<Rightarrow> m\<lparr>timers := (timers m)(existingInterval := None)\<rparr>
                | None \<Rightarrow> m);
          period = (case cacheDuration options of
                      Some d \<Rightarrow> if d \<noteq> 0 then d else defaultCacheDuration
                    | None \<Rightarrow> defaultCacheDuration);
          interval = nextHandle m1
      in m1\<lparr>timers := (timers m1)(interval \<mapsto>
               \<lparr>timerKey = k, timerFetcher = fetcherRef, timerOptions = options,
                timerPeriod = period\<rparr>),
            refreshIntervals := (refreshIntervals m1)(k \<mapsto> interval),
            nextHandle := Suc interval\<rparr>)"

subsection \<open>\<^verbatim>\<open>fetchData\<close>\<close>

text \<open>
  \<^verbatim>\<open>fetchData\<close> runs in two synchronous blocks. The first goes from the call to the
  \<^verbatim>\<open>await\<close> of \<^verbatim>\<open>executeWithRetry\<close>, or to an earlier return; the second
  is the rest of the \<^verbatim>\<open>try\<close> or the \<^verbatim>\<open>catch\<close>, and runs when the retries
  have settled.
\<close>

datatype started =
    Hit jsval
  | Waiting
  | Started LoaderState

definition optCacheDuration :: "Options \<Rightarrow> int" where
  "optCacheDuration options =
     (case cacheDuration options of Some d \<Rightarrow> d | None \<Rightarrow> defaultCacheDuration)"

definition optCritical :: "Options \<Rightarrow> bool" where
  "optCritical options = (case critical options of Some b \<Rightarrow> b | None \<Rightarrow> False)"

definition optAutoRefresh :: "Options \<Rightarrow> bool" where
  "optAutoRefresh options = (case autoRefresh options of Some b \<Rightarrow> b | None \<Rightarrow> True)"

definition optRetryOnError :: "Options \<Rightarrow> bool" where
  "optRetryOnError options = (case retryOnError options of Some b \<Rightarrow> b | None \<Rightarrow> True)"

definition fetchData_begin :: "Manager \<Rightarrow> int \<Rightarrow> key \<Rightarrow> Options \<Rightarrow> Manager \<times> started" where
  "fetchData_begin m now k options =
     (let (m1, cached) = getFromCache m now k
      in if truthy cached \<and> \<not> shouldRefresh m1 now k (optCritical options) then (m1, Hit cached)
         else
           (let loaderState = getLoaderState m1 k
            in if isLoading loaderState then (m1, Waiting)
               else (setLoaderState m1 k
                       \<lparr>isLoading = True, lastFetch = now,
                        errorCount = errorCount loaderState, retryAfter = None\<rparr>,
                     Started loaderState)))"

text \<open>
  \<^verbatim>\<open>Date.now() + Math.pow(this.backoffMultiplier, newErrorCount) * 1000\<close>, in doubles.
  With \<open>n\<close> the count and \<open>j = n - 3\<close> (0 up to the third failure), the delay is the
  integer \<open>3 ^ n * 125\<close> over \<open>2 ^ j\<close>, so that the power, the product and the sum
  are all exact when the time is not negative and the sum times \<open>2 ^ j\<close> is below
  \<open>2 ^ 53\<close>. Beyond that the sum is rounded, and the model does not follow it.
\<close>

definition retryTime :: "int \<Rightarrow> nat \<Rightarrow> double" where
  "retryTime now newErrorCount =
     (let retryDelay = backoffMultiplier ^ newErrorCount * 1000
      in if 0 \<le> now \<and> (of_int now + retryDelay) * 2 ^ (newErrorCount - 3) < 2 ^ 53
         then Exact (of_int now + retryDelay)
         else Rounded)"

definition fetchData_resume ::
  "(callback \<Rightarrow> jsval \<Rightarrow> bool) \<Rightarrow> Manager \<Rightarrow> int \<Rightarrow> key \<Rightarrow> nat \<Rightarrow> Options \<Rightarrow> LoaderState \<Rightarrow> outcome
     \<Rightarrow> Manager \<times> outcome \<times> event list" where
  "fetchData_resume throws m now k fetcherRef options loaderState settled =
     (case settled of
        Inr d \<Rightarrow>
          (let m1 = setCache m now k d (optCacheDuration options);
               notes = notifySubscribers throws m1 k d;
               m2 = (if optAutoRefresh options then setupAutoRefresh m1 k fetcherRef options
                     else m1);
               m3 = setLoaderState m2 k
                      \<lparr>isLoading = False, lastFetch = now, errorCount = 0, retryAfter = None\<rparr>
           in (m3, Inr d, notes))
      | Inl err \<Rightarrow>
          (let newErrorCount = errorCount loaderState + 1;
               m1 = setLoaderState m k
                      \<lparr>isLoading = False, lastFetch = now, errorCount = newErrorCount,
                       retryAfter = Some (retryTime now newErrorCount)\<rparr>
           in case cache m1 k of
                Some fallbackCache \<Rightarrow>
                  (m1, Inr (data fallbackCache), [LogFetchFailed k err, WarnUsingCache k])
              | None \<Rightarrow> (m1, Inl err, [LogFetchFailed k err])))"

text \<open>
  One firing of the 100 ms timer of \<^verbatim>\<open>waitForLoader\<close>: the promise resolves,
  rejects, or the check is scheduled again.
\<close>

datatype poll =
    PollResolved jsval
  | PollRejected error
  | PollAgain

definition checkLoader :: "Manager \<Rightarrow> int \<Rightarrow> key \<Rightarrow> Manager \<times> poll" where
  "checkLoader m now k =
     (let state = getLoaderState m k
      in if \<not> isLoading state then
           (let (m1, cached) = getFromCache m now k
            in if truthy cached then (m1, PollResolved cached)
               else (m1, PollRejected LoaderNoData))
         else (m, PollAgain))"

text \<open>
  A whole call with nothing in between its two blocks: it begins at \<open>now\<close> and its
  retries have settled at \<open>later\<close>. A call that finds the key loading returns the
  promise of \<^verbatim>\<open>waitForLoader\<close>, which is still pending when the call returns.
\<close>

datatype promise =
    Settled outcome
  | Polling

definition fetchData ::
  "(callback \<Rightarrow> jsval \<Rightarrow> bool) \<Rightarrow> Manager \<Rightarrow> int \<Rightarrow> int \<Rightarrow> key \<Rightarrow> nat \<Rightarrow> (nat \<Rightarrow> outcome) \<Rightarrow> Options
     \<Rightarrow> Manager \<times> promise \<times> event list" where
  "fetchData throws m now later k fetcherRef fetcher options =
     (case fetchData_begin m now k options of
        (m1, Hit cached) \<Rightarrow> (m1, Settled (Inr cached), [])
      | (m1, Waiting) \<Rightarrow> (m1, Polling, [])
      | (m1, Started loaderState) \<Rightarrow>
          (let (settled, calls) = executeWithRetry m1 fetcher k (optRetryOnError options);
               (m2, result, notes) =
                 fetchData_resume throws m1 later k fetcherRef options loaderState settled
           in (m2, Settled result, calls @ notes)))"

text \<open>
  One firing of the interval timer with handle \<open>h\<close>. A timer that was cleared does not
  fire. A rejection of the call is logged; a promise that is still polling is awaited and
  not followed here.
\<close>

definition intervalTick ::
  "(callback \<Rightarrow> jsval \<Rightarrow> bool) \<Rightarrow> Manager \<Rightarrow> int \<Rightarrow> int \<Rightarrow> nat \<Rightarrow> (nat \<Rightarrow> outcome)
     \<Rightarrow> Manager \<times> event list" where
  "intervalTick throws m now later h fetcher =
     (case timers m h of
        None \<Rightarrow> (m, [])
      | Some t \<Rightarrow>
          (case subscribers m (timerKey t) of
             None \<Rightarrow> (m, [])
           | Some subs \<Rightarrow>
               if length subs > 0 then
                 (case fetchData throws m now later (timerKey t) (timerFetcher t) fetcher
                         ((timerOptions t)\<lparr>autoRefresh := Some False\<rparr>) of
                    (m1, Settled (Inl err), tr) \<Rightarrow>
                      (m1, tr @ [LogAutoRefreshFailed (timerKey t) err])
                  | (m1, _, tr) \<Rightarrow> (m1, tr))
               else (m, [])))"

subsection \<open>Blocks on the event loop\<close>

text \<open>
  While a call is between its two blocks, other blocks run: first blocks of other calls,
  second blocks of calls in flight, timer checks of waiting callers, subscriptions and
  their cancellations. A schedule is a list of such blocks, each with the time at which it
  runs.
\<close>

datatype op =
    Begin int key Options
  | Resume int key nat Options LoaderState outcome
  | Poll int key
  | Subscribe key callback
  | Unsubscribe key callback

fun perform :: "(callback \<Rightarrow> jsval \<Rightarrow> bool) \<Rightarrow> Manager \<Rightarrow> op \<Rightarrow> Manager" where
  "perform throws m (Begin now k options) = fst (fetchData_begin m now k options)"
| "perform throws m (Resume now k fetcherRef options loaderState settled) =
     fst (fetchData_resume throws m now k fetcherRef options loaderState settled)"
| "perform throws m (Poll now k) = fst (checkLoader m now k)"
| "perform throws m (Subscribe k cb) = subscribe m k cb"
| "perform throws m (Unsubscribe k cb) = unsubscribe m k cb"

definition run :: "(callback \<Rightarrow> jsval \<Rightarrow> bool) \<Rightarrow> Manager \<Rightarrow> op list \<Rightarrow> Manager" where
  "run throws m ops = foldl (perform throws) m ops"

text \<open>
  The blocks that can run while a call for \<open>k\<close> is in flight: the loading flag of
  \<open>k\<close> is set from the first block of that call to its second, every other call for
  \<open>k\<close> that begins in between returns or waits, and so no other call has a second block
  for \<open>k\<close> to run.
\<close>

fun foreign :: "key \<Rightarrow> op \<Rightarrow> bool" where
  "foreign k (Resume now k' fetcherRef options loaderState settled) = (k' \<noteq> k)"
| "foreign k (Begin now k' options) = True"
| "foreign k (Poll now k') = True"
| "foreign k (Subscribe k' cb) = True"
| "foreign k (Unsubscribe k' cb) = True"

text \<open>
  A first block of another call for \<open>k\<close> looks \<open>k\<close> up in the cache, and deletes
  its entry if that has expired. \<open>timely k deadline\<close> holds of the blocks that make no
  such lookup after the deadline.
\<close>

fun timely :: "key \<Rightarrow> int \<Rightarrow> op \<Rightarrow> bool" where
  "timely k deadline (Begin now k' options) = (k' \<noteq> k \<or> now \<le> deadline)"
| "timely k deadline (Resume now k' fetcherRef options loaderState settled) = True"
| "timely k deadline (Poll now k') = True"
| "timely k deadline (Subscribe k' cb) = True"
| "timely k deadline (Unsubscribe k' cb) = True"

text \<open>The blocks of calls for \<open>k\<close>: the only ones that start or complete a fetch for it.\<close>

fun fetches :: "key \<Rightarrow> op \<Rightarrow> bool" where
  "fetches k (Begin now k' options) = (k' = k)"
| "fetches k (Resume now k' fetcherRef options loaderState settled) = (k' = k)"
| "fetches k (Poll now k') = False"
| "fetches k (Subscribe k' cb) = False"
| "fetches k (Unsubscribe k' cb) = False"

text \<open>The blocks that subscribe a callback to \<open>k\<close>.\<close>

fun subscribesTo :: "key \<Rightarrow> op \<Rightarrow> bool" where
  "subscribesTo k (Subscribe k' cb) = (k' = k)"
| "subscribesTo k (Begin now k' options) = False"
| "subscribesTo k (Resume now k' fetcherRef options loaderState settled) = False"
| "subscribesTo k (Poll now k') = False"
| "subscribesTo k (Unsubscribe k' cb) = False"

text \<open>
  Firings of interval timers, one after the other: the handle that fires, the time of the
  first block of its call, the time of the second, and what the fetcher settles to.
\<close>

fun runTicks ::
  "(callback \<Rightarrow> jsval \<Rightarrow> bool) \<Rightarrow> Manager \<Rightarrow> (nat \<times> int \<times> int \<times> (nat \<Rightarrow> outcome)) list
     \<Rightarrow> Manager \<times> event list" where
  "runTicks throws m [] = (m, [])"
| "runTicks throws m ((h, now, later, fetcher) # rest) =
     (let fired = intervalTick throws m now later h fetcher;
          after = runTicks throws (fst fired) rest
      in (fst after, snd fired @ snd after))"

text \<open>
  What the manager maintains about its timers: an armed timer is the one recorded for its
  key, and its handle has been given out.
\<close>

definition timersRecorded :: "Manager \<Rightarrow> bool" where
  "timersRecorded m \<longleftrightarrow>
     (\<forall>h t. timers m h = Some t \<longrightarrow> refreshIntervals m (timerKey t) = Some h \<and> h < nextHandle m)"

text \<open>The manager with the \<^verbatim>\<open>retryAfter\<close> field of every loader state erased.\<close>

definition forgetRetryAfter :: "Manager \<Rightarrow> Manager" where
  "forgetRetryAfter m =
     m\<lparr>loaders := (\<lambda>k. map_option (\<lambda>st. st\<lparr>retryAfter := None\<rparr>) (loaders m k))\<rparr>"

subsection \<open>Callers used in the examples\<close>

definition failing :: "nat \<Rightarrow> outcome" where
  "failing i = Inl (FetcherError ''unreachable'')"

definition yielding :: "jsval \<Rightarrow> nat \<Rightarrow> outcome" where
  "yielding v i = Inr v"

definition quiet :: "callback \<Rightarrow> jsval \<Rightarrow> bool" where
  "quiet cb d = False"

definition faulty :: "callback \<Rightarrow> jsval \<Rightarrow> bool" where
  "faulty cb d = (cb = 1)"

definition lasting :: "int \<Rightarrow> Options" where
  "lasting d = \<lparr>cacheDuration = Some d, critical = None, autoRefresh = None, retryOnError = None\<rparr>"

definition lastingOnce :: "int \<Rightarrow> Options" where
  "lastingOnce d =
     \<lparr>cacheDuration = Some d, critical = None, autoRefresh = Some False, retryOnError = None\<rparr>"

text \<open>
  The manager after one call at time 0 that fetched \<open>JStr ''v''\<close> for the key
  \<open>''k''\<close>, cached it for \<open>d\<close> ms and armed no timer.
\<close>

definition cachedAt0 :: "int \<Rightarrow> Manager" where
  "cachedAt0 d =
     fst (fetchData quiet newManager 0 0 ''k'' 1 (yielding (JStr ''v'')) (lastingOnce d))"

text \<open>
  A subscriber 7 of \<open>''k''\<close>, then a call that begins at 0, succeeds at 10, caches for
  1000 ms and arms the timer with handle 1; then the firing of that timer at 2010, whose four
  attempts all fail, the last at 6800.
\<close>

definition armed :: Manager where
  "armed =
     fst (fetchData quiet (subscribe newManager ''k'' 7) 0 10 ''k'' 1 (yielding (JStr ''v''))
            (lasting 1000))"

definition backedOff :: Manager where
  "backedOff = fst (intervalTick quiet armed 2010 6800 1 failing)"

text \<open>
  A call for \<open>''k''\<close> begins at 0, and a second one at 55 waits for it. The fetch of the
  first fails, the last attempt at 4800, and leaves no cache entry. A third call begins at
  4850 and starts a fetch, which succeeds at 4900.
\<close>

definition waitedFor :: Manager where
  "waitedFor = fst (fetchData_begin newManager 0 ''k'' (lastingOnce 50))"

definition failedFetch :: Manager where
  "failedFetch =
     fst (fetchData_resume quiet waitedFor 4800 ''k'' 1 (lastingOnce 50)
            (getLoaderState newManager ''k'') (Inl (FetcherError ''unreachable'')))"

definition fetchingAgain :: Manager where
  "fetchingAgain = fst (fetchData_begin failedFetch 4850 ''k'' (lastingOnce 1000))"

definition fetchedAgain :: Manager where
  "fetchedAgain =
     fst (fetchData_resume quiet fetchingAgain 4900 ''k'' 2 (lastingOnce 1000)
            (getLoaderState failedFetch ''k'') (Inr (JStr ''w'')))"

section \<open>The retry policy of one call\<close>

lemma retryLoop_past: "retryLoop k f 4 (Some e) = (Inl e, [])"
  by (subst retryLoop.simps) (simp add: maxRetries_def)

lemma retryLoop_last: "retryLoop k f 3 le = (f 3, [Invoke k])"
  by (subst retryLoop.simps) (simp add: maxRetries_def retryLoop_past split: sum.split)

lemma retryLoop_step:
  "attempt < 3 \<Longrightarrow>
   retryLoop k f attempt le =
     (case f attempt of
        Inr v \<Rightarrow> (Inr v, [Invoke k])
      | Inl e \<Rightarrow> (fst (retryLoop k f (Suc attempt) (Some e)),
                 Invoke k # Sleep ((3 / 2) ^ attempt * 1000) #
                 snd (retryLoop k f (Suc attempt) (Some e))))"
  by (subst retryLoop.simps)
     (simp add: maxRetries_def backoffMultiplier_def Let_def split: sum.split)

text \<open>The loop unrolled: it has at most four rounds.\<close>

lemma retryLoop_0:
  "retryLoop k f 0 le =
     (case f 0 of
        Inr v \<Rightarrow> (Inr v, [Invoke k])
      | Inl e0 \<Rightarrow>
          (case f 1 of
             Inr v \<Rightarrow> (Inr v, [Invoke k, Sleep 1000, Invoke k])
           | Inl e1 \<Rightarrow>
               (case f 2 of
                  Inr v \<Rightarrow> (Inr v, [Invoke k, Sleep 1000, Invoke k, Sleep 1500, Invoke k])
                | Inl e2 \<Rightarrow>
                    (f 3, [Invoke k, Sleep 1000, Invoke k, Sleep 1500, Invoke k, Sleep 2250,
                           Invoke k]))))"
proof -
  have s1: "retryLoop k f 2 le' =
     (case f 2 of Inr v \<Rightarrow> (Inr v, [Invoke k])
      | Inl e \<Rightarrow> (f 3, [Invoke k, Sleep 2250, Invoke k]))" for le'
    using retryLoop_step [of 2 k f le']
    by (simp add: retryLoop_last power2_eq_square split: sum.split)
  have s2: "retryLoop k f (Suc 0) le' =
     (case f 1 of Inr v \<Rightarrow> (Inr v, [Invoke k])
      | Inl e \<Rightarrow> (fst (retryLoop k f 2 (Some e)),
                 Invoke k # Sleep 1500 # snd (retryLoop k f 2 (Some e))))" for le'
    using retryLoop_step [of "Suc 0" k f le']
    by (simp add: numeral_2_eq_2 split: sum.split)
  show ?thesis
    using retryLoop_step [of 0 k f le]
    by (simp add: s1 s2 split: sum.split)
qed





text \<open>
  The first block of \<^verbatim>\<open>fetchData\<close> leaves the failure count of the key as it
  found it, so \<^verbatim>\<open>executeWithRetry\<close> reads the count of the failures before the call.
\<close>

lemma getFromCache_loaders [simp]: "loaders (fst (getFromCache m now k)) = loaders m"
  by (simp add: getFromCache_def split: option.split)

lemma getLoaderState_getFromCache [simp]:
  "getLoaderState (fst (getFromCache m now k)) k' = getLoaderState m k'"
  by (simp add: getLoaderState_def)

lemma begin_errorCount:
  "errorCount (getLoaderState (fst (fetchData_begin m now k options)) k) =
   errorCount (getLoaderState m k)"
proof -
  obtain m1 cached where g: "getFromCache m now k = (m1, cached)"
    by (cases "getFromCache m now k")
  have l: "loaders m1 = loaders m"
    using getFromCache_loaders [of m now k] g by simp
  show ?thesis
    by (simp add: fetchData_begin_def g l Let_def setLoaderState_def getLoaderState_def)
qed

section \<open>Evaluating the model\<close>

lemmas block_defs =
  fetchData_def fetchData_begin_def fetchData_resume_def checkLoader_def intervalTick_def
  executeWithRetry_def getFromCache_def setCache_def shouldRefresh_def getLoaderState_def
  setLoaderState_def notifySubscribers_def subscribe_def unsubscribe_def setupAutoRefresh_def
  optCacheDuration_def optCritical_def optAutoRefresh_def optRetryOnError_def
  defaultCacheDuration_def criticalDataCacheDuration_def maxRetries_def backoffMultiplier_def
  retryTime_def newManager_def

lemmas caller_defs = failing_def yielding_def quiet_def faulty_def lasting_def lastingOnce_def

lemma cachedAt0_eval:
  "cachedAt0 d =
     \<lparr>cache = [''k'' \<mapsto> \<lparr>data = JStr ''v'', timestamp = 0, expiresAt = d\<rparr>],
      loaders = [''k'' \<mapsto> \<lparr>isLoading = False, lastFetch = 0, errorCount = 0,
                             retryAfter = None\<rparr>],
      subscribers = Map.empty, refreshIntervals = Map.empty, timers = Map.empty,
      nextHandle = 1\<rparr>"
  by (simp add: cachedAt0_def block_defs caller_defs Let_def retryLoop_0)

lemma armed_eval:
  "armed =
     \<lparr>cache = [''k'' \<mapsto> \<lparr>data = JStr ''v'', timestamp = 10, expiresAt = 1010\<rparr>],
      loaders = [''k'' \<mapsto> \<lparr>isLoading = False, lastFetch = 10, errorCount = 0,
                             retryAfter = None\<rparr>],
      subscribers = [''k'' \<mapsto> [7]],
      refreshIntervals = [''k'' \<mapsto> 1],
      timers = [1 \<mapsto> \<lparr>timerKey = ''k'', timerFetcher = 1, timerOptions = lasting 1000,
                          timerPeriod = 1000\<rparr>],
      nextHandle = 2\<rparr>"
  by (simp add: armed_def block_defs caller_defs Let_def retryLoop_0)

lemma backedOff_eval:
  "backedOff =
     armed\<lparr>cache := Map.empty,
           loaders := [''k'' \<mapsto> \<lparr>isLoading = False, lastFetch = 6800, errorCount = 1,
                                  retryAfter = Some (Exact 8300)\<rparr>]\<rparr>"
  by (simp add: backedOff_def armed_eval block_defs caller_defs Let_def retryLoop_0)

section \<open>The two blocks of a call\<close>

lemma getFromCache_live:
  "cache m k = Some e \<Longrightarrow> now \<le> expiresAt e \<Longrightarrow> getFromCache m now k = (m, data e)"
  by (simp add: getFromCache_def)

lemma getFromCache_none:
  "cache m k = None \<Longrightarrow> getFromCache m now k = (m, JNull)"
  by (simp add: getFromCache_def)

lemma executeWithRetry_all_fail:
  assumes "\<forall>i. f i = Inl (errs i)"
  shows "fst (executeWithRetry m f k retry) =
           Inl (errs (if retry \<and> errorCount (getLoaderState m k) < 3 then 3 else 0))"
  using assms by (simp add: executeWithRetry_def retryLoop_0 maxRetries_def)

lemma executeWithRetry_all_fail_trace:
  assumes "\<forall>i. f i = Inl (errs i)"
  shows "length (filter (\<lambda>ev. ev = Invoke k) (snd (executeWithRetry m f k retry))) =
           (if retry \<and> errorCount (getLoaderState m k) < 3 then 4 else 1)"
  using assms by (simp add: executeWithRetry_def retryLoop_0 maxRetries_def)

lemma begin_hit:
  "cache m k = Some e \<Longrightarrow> now \<le> expiresAt e \<Longrightarrow> truthy (data e) \<Longrightarrow>
   \<not> shouldRefresh m now k (optCritical options) \<Longrightarrow>
   fetchData_begin m now k options = (m, Hit (data e))"
  by (simp add: fetchData_begin_def getFromCache_live)

lemma begin_cases:
  "(\<exists>v. fetchData_begin m now k options = (fst (getFromCache m now k), Hit v)) \<or>
   (fetchData_begin m now k options = (fst (getFromCache m now k), Waiting) \<and>
      isLoading (getLoaderState m k)) \<or>
   (fetchData_begin m now k options =
      (setLoaderState (fst (getFromCache m now k)) k
         \<lparr>isLoading = True, lastFetch = now, errorCount = errorCount (getLoaderState m k),
          retryAfter = None\<rparr>,
       Started (getLoaderState m k)) \<and> \<not> isLoading (getLoaderState m k))"
proof -
  obtain m1 cached where g: "getFromCache m now k = (m1, cached)"
    by (cases "getFromCache m now k")
  have l: "getLoaderState m1 k = getLoaderState m k"
    using getLoaderState_getFromCache [of m now k k] g by simp
  show ?thesis
    by (simp add: fetchData_begin_def g l Let_def)
qed

lemma getFromCache_cache:
  "cache (fst (getFromCache m now k)) k' =
     (if k' = k then (case cache m k of None \<Rightarrow> None
                      | Some e \<Rightarrow> if expiresAt e < now then None else Some e)
      else cache m k')"
  by (simp add: getFromCache_def split: option.split)

lemma begin_cache:
  "cache (fst (fetchData_begin m now k options)) k' = cache (fst (getFromCache m now k)) k'"
  using begin_cases [of m now k options] by (auto simp: setLoaderState_def)

lemma begin_started:
  assumes "fetchData_begin m now k options = (m1, Started ls)"
  shows "ls = getLoaderState m k" and "\<not> isLoading (getLoaderState m k)"
    and "m1 = setLoaderState (fst (getFromCache m now k)) k
           \<lparr>isLoading = True, lastFetch = now, errorCount = errorCount (getLoaderState m k),
            retryAfter = None\<rparr>"
  using begin_cases [of m now k options] assms by auto

lemma resume_failure:
  "fetchData_resume throws m now k fr options ls (Inl err) =
     (setLoaderState m k
        \<lparr>isLoading = False, lastFetch = now, errorCount = errorCount ls + 1,
         retryAfter = Some (retryTime now (errorCount ls + 1))\<rparr>,
      (case cache m k of Some e \<Rightarrow> Inr (data e) | None \<Rightarrow> Inl err),
      (case cache m k of Some e \<Rightarrow> [LogFetchFailed k err, WarnUsingCache k]
       | None \<Rightarrow> [LogFetchFailed k err]))"
  by (simp add: fetchData_resume_def setLoaderState_def Let_def split: option.split)

lemma fetchData_started:
  assumes "fetchData_begin m now k options = (m1, Started ls)"
  shows "fetchData throws m now later k fr f options =
     (fst (fetchData_resume throws m1 later k fr options ls
             (fst (executeWithRetry m1 f k (optRetryOnError options)))),
      Settled (fst (snd (fetchData_resume throws m1 later k fr options ls
                           (fst (executeWithRetry m1 f k (optRetryOnError options)))))),
      snd (executeWithRetry m1 f k (optRetryOnError options)) @
      snd (snd (fetchData_resume throws m1 later k fr options ls
                  (fst (executeWithRetry m1 f k (optRetryOnError options))))))"
  by (simp add: fetchData_def assms case_prod_beta Let_def)

lemma started_loading:
  assumes "fetchData_begin m now k options = (m1, Started ls)"
  shows "isLoading (getLoaderState m1 k)" and "getLoaderState m1 k = ls\<lparr>isLoading := True, lastFetch := now, retryAfter := None\<rparr>"
    and "cache m1 = cache (fst (getFromCache m now k))"
  using begin_started [OF assms] by (simp_all add: setLoaderState_def getLoaderState_def)

lemma started_errorCount:
  assumes "fetchData_begin m now k options = (m1, Started ls)"
  shows "errorCount (getLoaderState m1 k) = errorCount (getLoaderState m k)"
  using begin_errorCount [of m now k options] assms by simp

lemma notifyEach_no_warn: "WarnUsingCache k \<notin> set (notifyEach throws subs d)"
  by (induction subs) auto

lemma notifyEach_no_invoke: "Invoke k \<notin> set (notifyEach throws subs d)"
  by (induction subs) auto

lemma executeWithRetry_no_warn: "WarnUsingCache k' \<notin> set (snd (executeWithRetry m f k retry))"
  by (simp add: executeWithRetry_def retryLoop_0 split: sum.split)

lemma executeWithRetry_invokes:
  "Invoke k' \<in> set (snd (executeWithRetry m f k retry)) \<longleftrightarrow> k' = k"
  by (auto simp add: executeWithRetry_def retryLoop_0 split: sum.split)

lemma resume_success:
  "fetchData_resume throws m now k fr options ls (Inr d) =
     (setLoaderState
        (if optAutoRefresh options
         then setupAutoRefresh (setCache m now k d (optCacheDuration options)) k fr options
         else setCache m now k d (optCacheDuration options))
        k \<lparr>isLoading = False, lastFetch = now, errorCount = 0, retryAfter = None\<rparr>,
      Inr d, notifySubscribers throws m k d)"
  by (simp add: fetchData_resume_def Let_def notifySubscribers_def setCache_def)

lemma resume_warns:
  assumes "fetchData_resume throws m later k fr options ls settled = (m2, r, notes)"
    and "WarnUsingCache k \<in> set notes"
  shows "\<exists>err e. settled = Inl err \<and> cache m k = Some e \<and> r = Inr (data e)"
proof (cases settled)
  case (Inl err)
  with assms show ?thesis
    by (auto simp: resume_failure split: option.splits)
next
  case (Inr d)
  with assms show ?thesis
    by (auto simp: resume_success notifySubscribers_def notifyEach_no_warn split: option.splits)
qed

section \<open>What other blocks leave alone while a call is in flight\<close>

lemma setupAutoRefresh_fields [simp]:
  "cache (setupAutoRefresh m k fr options) = cache m"
  "loaders (setupAutoRefresh m k fr options) = loaders m"
  "subscribers (setupAutoRefresh m k fr options) = subscribers m"
  by (simp_all add: setupAutoRefresh_def Let_def split: option.split)

lemma resume_cache_other:
  "k' \<noteq> k \<Longrightarrow> cache (fst (fetchData_resume throws m now k' fr options ls settled)) k = cache m k"
  by (cases settled)
     (simp_all add: fetchData_resume_def setLoaderState_def setCache_def Let_def
        split: option.split)

lemma resume_loaders_other:
  "k' \<noteq> k \<Longrightarrow>
   loaders (fst (fetchData_resume throws m now k' fr options ls settled)) k = loaders m k"
  by (cases settled)
     (simp_all add: fetchData_resume_def setLoaderState_def setCache_def Let_def
        split: option.split)

lemma begin_loaders_frame:
  assumes "isLoading (getLoaderState m k)"
  shows "loaders (fst (fetchData_begin m now k' options)) k = loaders m k"
proof (cases "k' = k")
  case True
  with assms show ?thesis
    using begin_cases [of m now k options] by auto
next
  case False
  then show ?thesis
    using begin_cases [of m now k' options] by (auto simp: setLoaderState_def)
qed

lemma checkLoader_loaders [simp]: "loaders (fst (checkLoader m now k)) = loaders m"
proof -
  obtain m1 cached where g: "getFromCache m now k = (m1, cached)"
    by (cases "getFromCache m now k")
  have "loaders m1 = loaders m" using getFromCache_loaders [of m now k] g by simp
  then show ?thesis by (simp add: checkLoader_def g Let_def)
qed

lemma checkLoader_cache:
  "cache (fst (checkLoader m now k')) k = Some e \<Longrightarrow> cache m k = Some e"
proof -
  assume a: "cache (fst (checkLoader m now k')) k = Some e"
  obtain m1 cached where g: "getFromCache m now k' = (m1, cached)"
    by (cases "getFromCache m now k'")
  have c: "cache m1 k = Some e \<Longrightarrow> cache m k = Some e"
    using getFromCache_cache [of m now k' k] g by (auto split: if_splits option.splits)
  show ?thesis
    using a c by (auto simp: checkLoader_def g Let_def split: if_splits)
qed

lemma begin_cache_shrinks:
  "cache (fst (fetchData_begin m now k' options)) k = Some e \<Longrightarrow> cache m k = Some e"
  by (auto simp: begin_cache getFromCache_cache split: if_splits option.splits)

lemma subscribe_fields [simp]:
  "cache (subscribe m k cb) = cache m" "loaders (subscribe m k cb) = loaders m"
  by (simp_all add: subscribe_def Let_def split: option.split)

lemma unsubscribe_fields [simp]:
  "cache (unsubscribe m k cb) = cache m" "loaders (unsubscribe m k cb) = loaders m"
  by (simp_all add: unsubscribe_def Let_def split: option.split)

lemma perform_frame:
  assumes "isLoading (getLoaderState m k)" and "foreign k op"
  shows "loaders (perform throws m op) k = loaders m k"
    and "cache (perform throws m op) k = Some e \<Longrightarrow> cache m k = Some e"
proof -
  show "loaders (perform throws m op) k = loaders m k"
    using assms by (cases op) (simp_all add: begin_loaders_frame resume_loaders_other)
  show "cache (perform throws m op) k = Some e \<Longrightarrow> cache m k = Some e"
    using assms(2)
    by (cases op) (auto simp: resume_cache_other dest: begin_cache_shrinks checkLoader_cache)
qed

lemma run_frame:
  assumes "isLoading (getLoaderState m k)" and "list_all (foreign k) ops"
  shows "loaders (run throws m ops) k = loaders m k \<and>
         (\<forall>e. cache (run throws m ops) k = Some e \<longrightarrow> cache m k = Some e)"
  using assms
proof (induction ops arbitrary: m)
  case Nil
  then show ?case by (simp add: run_def)
next
  case (Cons op ops)
  let ?m' = "perform throws m op"
  have f: "foreign k op" and fs: "list_all (foreign k) ops" using Cons.prems(2) by simp_all
  have l: "loaders ?m' k = loaders m k"
    using perform_frame(1) [OF Cons.prems(1) f] .
  then have "isLoading (getLoaderState ?m' k)"
    using Cons.prems(1) by (simp add: getLoaderState_def)
  from Cons.IH [OF this fs]
  have ih: "loaders (run throws ?m' ops) k = loaders ?m' k"
    "\<And>e. cache (run throws ?m' ops) k = Some e \<Longrightarrow> cache ?m' k = Some e"
    by auto
  have r: "run throws m (op # ops) = run throws ?m' ops" by (simp add: run_def)
  show ?case
    unfolding r using ih l perform_frame(2) [OF Cons.prems(1) f] by auto
qed



lemma perform_keeps_entry:
  assumes "isLoading (getLoaderState m k)" and "foreign k op" and "timely k (expiresAt e) op"
    and "cache m k = Some e"
  shows "cache (perform throws m op) k = Some e"
proof (cases op)
  case (Begin now k' options)
  with assms(3,4) show ?thesis
    by (auto simp: begin_cache getFromCache_cache)
next
  case (Resume now k' fr options ls settled)
  with assms(2,4) show ?thesis by (simp add: resume_cache_other)
next
  case (Poll now k')
  show ?thesis
  proof (cases "k' = k")
    case True
    with assms(1,4) Poll show ?thesis by (simp add: checkLoader_def)
  next
    case False
    obtain m1 cached where g: "getFromCache m now k' = (m1, cached)"
      by (cases "getFromCache m now k'")
    have "cache m1 k = cache m k"
      using getFromCache_cache [of m now k' k] g False by simp
    with assms(4) Poll show ?thesis
      by (simp add: checkLoader_def g Let_def)
  qed
qed (use assms(4) in simp_all)

lemma run_keeps_entry:
  assumes "isLoading (getLoaderState m k)" and "list_all (foreign k) ops"
    and "list_all (timely k (expiresAt e)) ops" and "cache m k = Some e"
  shows "cache (run throws m ops) k = Some e"
  using assms
proof (induction ops arbitrary: m)
  case Nil
  then show ?case by (simp add: run_def)
next
  case (Cons op ops)
  let ?m' = "perform throws m op"
  have f: "foreign k op" and fs: "list_all (foreign k) ops"
    and t: "timely k (expiresAt e) op" and ts: "list_all (timely k (expiresAt e)) ops"
    using Cons.prems(2,3) by simp_all
  have "loaders ?m' k = loaders m k"
    using perform_frame(1) [OF Cons.prems(1) f] .
  then have l: "isLoading (getLoaderState ?m' k)"
    using Cons.prems(1) by (simp add: getLoaderState_def)
  have c: "cache ?m' k = Some e"
    using perform_keeps_entry [OF Cons.prems(1) f t Cons.prems(4)] .
  have "run throws m (op # ops) = run throws ?m' ops" by (simp add: run_def)
  with Cons.IH [OF l fs ts c] show ?case by simp
qed

section \<open>Cache hits\<close>

text \<open>
  Claim C2, as stated, fails: the threshold of \<^verbatim>\<open>shouldRefresh\<close> is 80% of 5000 ms
  for a critical call and 80% of the manager's default of 30000 ms otherwise; the duration
  the call passes is not read. An entry cached at 0 for 60000 ms and asked for at 30000, by
  a call that passes 60000 again, has an age below 80% of 60000, and the fetcher is
  invoked.
\<close>

theorem configured_duration_counterexample:
  "cache (cachedAt0 60000) ''k'' = Some \<lparr>data = JStr ''v'', timestamp = 0, expiresAt = 60000\<rparr> \<and>
   (of_int (30000 - 0) :: rat) < 8 / 10 * 60000 \<and>
   snd (fetchData quiet (cachedAt0 60000) 30000 30000 ''k'' 1 (yielding (JStr ''w''))
          (lastingOnce 60000)) =
     (Settled (Inr (JStr ''w'')), [Invoke ''k''])"
  by (simp add: cachedAt0_eval block_defs caller_defs Let_def retryLoop_0)

text \<open>
  Claim C2, amended. For every key holding a cache entry that has not expired, whose data
  is truthy and whose age is strictly less than 80% of 5000 ms when the call passes
  \<^verbatim>\<open>critical = true\<close>, and of the manager's default of 30000 ms otherwise (whatever
  duration the call passes), \<^verbatim>\<open>fetchData\<close> returns the cached value without
  invoking the fetcher, and leaves the manager as it was.
\<close>

theorem cache_hit:
  assumes "cache m k = Some e" and "now \<le> expiresAt e" and "truthy (data e)"
    and "(of_int (now - timestamp e) :: rat) <
           8 / 10 * (if optCritical options then 5000 else 30000)"
  shows "fetchData throws m now later k fr f options = (m, Settled (Inr (data e)), [])"
proof -
  have "\<not> shouldRefresh m now k (optCritical options)"
    using assms(1,4)
    by (simp add: shouldRefresh_def criticalDataCacheDuration_def defaultCacheDuration_def
          Let_def split: if_splits)
  with assms(1-3) have "fetchData_begin m now k options = (m, Hit (data e))"
    by (rule begin_hit)
  then show ?thesis by (simp add: fetchData_def)
qed

theorem cache_hit_witness:
  "cache (cachedAt0 60000) ''k'' = Some \<lparr>data = JStr ''v'', timestamp = 0, expiresAt = 60000\<rparr> \<and>
   truthy (JStr ''v'') \<and>
   fetchData quiet (cachedAt0 60000) 20000 20000 ''k'' 1 failing (lastingOnce 60000) =
     (cachedAt0 60000, Settled (Inr (JStr ''v'')), [])"
  using cache_hit [of "cachedAt0 60000" "''k''"
      "\<lparr>data = JStr ''v'', timestamp = 0, expiresAt = 60000\<rparr>" 20000 "lastingOnce 60000"
      quiet 20000 1 failing]
  by (simp add: cachedAt0_eval optCritical_def lastingOnce_def)

section \<open>Failure of the fetcher\<close>

text \<open>
  Claim C3, as stated, fails: the lookup at the beginning of the call deletes an entry
  that has expired, and the fallback after the failure finds nothing. An entry cached at 0
  for 1000 ms is still in the map at 2000; a call at 2000 whose fetcher fails every time
  rejects.
\<close>

theorem expired_entry_counterexample:
  "cache (cachedAt0 1000) ''k'' = Some \<lparr>data = JStr ''v'', timestamp = 0, expiresAt = 1000\<rparr> \<and>
   fst (snd (fetchData quiet (cachedAt0 1000) 2000 7000 ''k'' 1 failing (lastingOnce 1000))) =
     Settled (Inl (FetcherError ''unreachable''))"
  by (simp add: cachedAt0_eval block_defs caller_defs Let_def retryLoop_0)

text \<open>
  Claim C3, amended. For every key with a cache entry that has not expired when the call
  begins (it may be due for refresh) and no fetch in flight, a \<^verbatim>\<open>fetchData\<close> call
  whose fetcher fails on every attempt resolves with the data of that entry. This holds for
  a call that runs alone, and for one with blocks of other calls in between as long as none
  of them looks the key up after the entry has expired.
\<close>

theorem stale_fallback:
  assumes "cache m k = Some e" and "now \<le> expiresAt e"
    and "\<not> isLoading (getLoaderState m k)" and "\<forall>i. f i = Inl (errs i)"
  shows "fst (snd (fetchData throws m now later k fr f options)) = Settled (Inr (data e)) \<and>
         (snd (fetchData_begin m now k options) = Started ls \<and>
          list_all (foreign k) ops \<and> list_all (timely k (expiresAt e)) ops \<longrightarrow>
            fst (snd (fetchData_resume throws
                        (run throws (fst (fetchData_begin m now k options)) ops)
                        later k fr options ls
                        (fst (executeWithRetry (fst (fetchData_begin m now k options)) f k
                                (optRetryOnError options))))) =
              Inr (data e))"
proof -
  have g: "getFromCache m now k = (m, data e)"
    using assms(1,2) by (rule getFromCache_live)
  let ?m1 = "setLoaderState m k
         \<lparr>isLoading = True, lastFetch = now, errorCount = errorCount (getLoaderState m k),
          retryAfter = None\<rparr>"
  consider (hit) v where "fetchData_begin m now k options = (m, Hit v)"
    | (started) "fetchData_begin m now k options = (?m1, Started (getLoaderState m k))"
    using begin_cases [of m now k options] assms(3) g by auto
  then show ?thesis
  proof cases
    case hit
    then have "v = data e"
      by (simp add: fetchData_begin_def g Let_def split: if_splits)
    with hit show ?thesis by (simp add: fetchData_def)
  next
    case started
    have c: "cache ?m1 k = Some e" using assms(1) by (simp add: setLoaderState_def)
    obtain err where x: "fst (executeWithRetry ?m1 f k (optRetryOnError options)) = Inl err"
      using executeWithRetry_all_fail [OF assms(4)] by blast
    have alone: "fst (snd (fetchData throws m now later k fr f options)) =
        Settled (Inr (data e))"
      by (simp add: fetchData_started [OF started] x resume_failure c)
    have between: "fst (snd (fetchData_resume throws (run throws ?m1 ops) later k fr options ls'
                  (Inl err))) = Inr (data e)"
      if "list_all (foreign k) ops" and "list_all (timely k (expiresAt e)) ops" for ls'
      using run_keeps_entry [OF started_loading(1) [OF started] that c, of throws]
      by (simp add: resume_failure)
    have b1: "fst (fetchData_begin m now k options) = ?m1"
      by (simp add: started)
    show ?thesis
      unfolding b1 x using alone between by blast
  qed
qed

theorem stale_fallback_witness:
  "cache (cachedAt0 60000) ''k'' = Some \<lparr>data = JStr ''v'', timestamp = 0, expiresAt = 60000\<rparr> \<and>
   shouldRefresh (cachedAt0 60000) 30000 ''k'' False \<and>
   \<not> isLoading (getLoaderState (cachedAt0 60000) ''k'') \<and>
   fst (snd (fetchData quiet (cachedAt0 60000) 30000 35000 ''k'' 1 failing (lastingOnce 60000))) =
     Settled (Inr (JStr ''v'')) \<and>
   snd (fetchData_begin (cachedAt0 60000) 30000 ''k'' (lastingOnce 60000)) =
     Started (getLoaderState (cachedAt0 60000) ''k'') \<and>
   list_all (foreign ''k'') [Begin 31000 ''k'' (lastingOnce 60000), Poll 31100 ''k''] \<and>
   list_all (timely ''k'' 60000) [Begin 31000 ''k'' (lastingOnce 60000), Poll 31100 ''k''] \<and>
   fst (snd (fetchData_resume quiet
               (run quiet (fst (fetchData_begin (cachedAt0 60000) 30000 ''k'' (lastingOnce 60000)))
                  [Begin 31000 ''k'' (lastingOnce 60000), Poll 31100 ''k''])
               35000 ''k'' 1 (lastingOnce 60000) (getLoaderState (cachedAt0 60000) ''k'')
               (fst (executeWithRetry
                       (fst (fetchData_begin (cachedAt0 60000) 30000 ''k'' (lastingOnce 60000)))
                       failing ''k'' (optRetryOnError (lastingOnce 60000)))))) =
     Inr (JStr ''v'')"
  using stale_fallback [of "cachedAt0 60000" "''k''"
      "\<lparr>data = JStr ''v'', timestamp = 0, expiresAt = 60000\<rparr>" 30000 failing
      "\<lambda>i. FetcherError ''unreachable''" quiet 35000 1 "lastingOnce 60000"
      "getLoaderState (cachedAt0 60000) ''k''"
      "[Begin 31000 ''k'' (lastingOnce 60000), Poll 31100 ''k'']"]
  by (simp add: cachedAt0_eval block_defs caller_defs Let_def retryLoop_0)

text \<open>
  Claim C4. For every key with no cache entry and no fetch in flight, a
  \<^verbatim>\<open>fetchData\<close> call whose fetcher fails on every attempt rejects with the error of
  its last attempt: the fourth (after 3 retries) when \<^verbatim>\<open>retryOnError\<close> is set and
  the key had fewer than 3 consecutive failures, the only one otherwise. The same holds
  whatever blocks of other calls run while the call is in flight.
\<close>

theorem no_cache_rejects:
  assumes "cache m k = None" and "\<not> isLoading (getLoaderState m k)"
    and "\<forall>i. f i = Inl (errs i)"
  shows "fst (snd (fetchData throws m now later k fr f options)) =
           Settled (Inl (errs (if optRetryOnError options \<and> errorCount (getLoaderState m k) < 3
                               then 3 else 0))) \<and>
         length (filter (\<lambda>ev. ev = Invoke k) (snd (snd (fetchData throws m now later k fr f options)))) =
           (if optRetryOnError options \<and> errorCount (getLoaderState m k) < 3 then 4 else 1) \<and>
         (list_all (foreign k) ops \<longrightarrow>
            fst (snd (fetchData_resume throws (run throws (fst (fetchData_begin m now k options)) ops)
                        later k fr options (getLoaderState m k)
                        (fst (executeWithRetry (fst (fetchData_begin m now k options)) f k
                                (optRetryOnError options))))) =
              Inl (errs (if optRetryOnError options \<and> errorCount (getLoaderState m k) < 3
                         then 3 else 0)))"
proof -
  let ?n = "if optRetryOnError options \<and> errorCount (getLoaderState m k) < 3 then 3 else 0 :: nat"
  let ?m1 = "setLoaderState m k
           \<lparr>isLoading = True, lastFetch = now, errorCount = errorCount (getLoaderState m k),
            retryAfter = None\<rparr>"
  have g: "getFromCache m now k = (m, JNull)"
    using assms(1) by (rule getFromCache_none)
  have b: "fetchData_begin m now k options = (?m1, Started (getLoaderState m k))"
    using assms(2) by (simp add: fetchData_begin_def g Let_def)
  have ec: "errorCount (getLoaderState ?m1 k) = errorCount (getLoaderState m k)"
    using started_errorCount [OF b] .
  have c: "cache ?m1 k = None" using assms(1) by (simp add: setLoaderState_def)
  have x: "fst (executeWithRetry ?m1 f k (optRetryOnError options)) = Inl (errs ?n)"
    using executeWithRetry_all_fail [OF assms(3), of ?m1 k "optRetryOnError options"] ec by simp
  have t: "length (filter (\<lambda>ev. ev = Invoke k) (snd (executeWithRetry ?m1 f k (optRetryOnError options)))) =
      (if optRetryOnError options \<and> errorCount (getLoaderState m k) < 3 then 4 else 1)"
    using executeWithRetry_all_fail_trace [OF assms(3), of k ?m1 "optRetryOnError options"] ec
    by simp
  obtain calls where xc: "executeWithRetry ?m1 f k (optRetryOnError options) = (Inl (errs ?n), calls)"
    using x by (cases "executeWithRetry ?m1 f k (optRetryOnError options)") simp
  have one: "fst (snd (fetchData throws m now later k fr f options)) = Settled (Inl (errs ?n))"
    by (simp add: fetchData_def b xc resume_failure c)
  have two: "length (filter (\<lambda>ev. ev = Invoke k) (snd (snd (fetchData throws m now later k fr f options)))) =
      (if optRetryOnError options \<and> errorCount (getLoaderState m k) < 3 then 4 else 1)"
    using t by (simp add: fetchData_def b xc resume_failure c)
  have three: "fst (snd (fetchData_resume throws (run throws ?m1 ops) later k fr options
                  (getLoaderState m k) (Inl (errs ?n)))) = Inl (errs ?n)"
    if fo: "list_all (foreign k) ops"
  proof -
    have "isLoading (getLoaderState ?m1 k)" using started_loading(1) [OF b] .
    from run_frame [OF this fo, of throws] c
    have "cache (run throws ?m1 ops) k = None"
      by (cases "cache (run throws ?m1 ops) k") auto
    then show ?thesis by (simp add: resume_failure)
  qed
  show ?thesis
    using one two three by (simp add: b x)
qed

theorem no_cache_rejects_witness:
  "cache newManager ''k'' = None \<and> \<not> isLoading (getLoaderState newManager ''k'') \<and>
   list_all (foreign ''k'') [Begin 5 ''k'' (lastingOnce 50), Poll 105 ''k''] \<and>
   fst (snd (fetchData quiet newManager 0 5000 ''k'' 1 failing (lastingOnce 50))) =
     Settled (Inl (FetcherError ''unreachable'')) \<and>
   length (filter (\<lambda>ev. ev = Invoke ''k'')
             (snd (snd (fetchData quiet newManager 0 5000 ''k'' 1 failing (lastingOnce 50))))) = 4 \<and>
   fst (snd (fetchData_resume quiet
               (run quiet (fst (fetchData_begin newManager 0 ''k'' (lastingOnce 50)))
                  [Begin 5 ''k'' (lastingOnce 50), Poll 105 ''k''])
               5000 ''k'' 1 (lastingOnce 50) (getLoaderState newManager ''k'')
               (fst (executeWithRetry (fst (fetchData_begin newManager 0 ''k'' (lastingOnce 50)))
                       failing ''k'' (optRetryOnError (lastingOnce 50)))))) =
     Inl (FetcherError ''unreachable'')"
  using no_cache_rejects [of newManager "''k''" failing "\<lambda>i. FetcherError ''unreachable''"
      quiet 0 5000 1 "lastingOnce 50" "[Begin 5 ''k'' (lastingOnce 50), Poll 105 ''k'']"]
  by (simp add: newManager_def getLoaderState_def failing_def optRetryOnError_def lastingOnce_def)

section \<open>Expired entries\<close>

text \<open>
  Claim C10. The first block of every \<^verbatim>\<open>fetchData\<close> call looks the key up and
  deletes its entry when the time is past \<^verbatim>\<open>expiresAt\<close>: an entry that is there
  after the lookup was there before and has not expired. When the fetch fails and the call
  resolves with the cached data instead (the fallback, which logs a warning), that data is
  of an entry that was in the cache when the call began and had not expired then; this
  holds for a call that runs alone and for one with blocks of other calls in between.
\<close>

theorem fallback_not_expired_at_start:
  "(cache (fst (fetchData_begin m now k options)) k = Some e \<longrightarrow>
      cache m k = Some e \<and> now \<le> expiresAt e) \<and>
   (cache m k = Some e \<and> expiresAt e < now \<longrightarrow>
      cache (fst (fetchData_begin m now k options)) k = None) \<and>
   (fetchData throws m now later k fr f options = (m2, Settled (Inr v), tr) \<and>
      WarnUsingCache k \<in> set tr \<longrightarrow>
      (\<exists>e'. cache m k = Some e' \<and> data e' = v \<and> now \<le> expiresAt e')) \<and>
   (fetchData_begin m now k options = (m1, Started ls) \<and> list_all (foreign k) ops \<and>
      fetchData_resume throws (run throws m1 ops) later k fr options ls (Inl err) =
        (m3, Inr v, notes) \<longrightarrow>
      (\<exists>e'. cache m k = Some e' \<and> data e' = v \<and> now \<le> expiresAt e'))"
  (is "?lookup \<and> ?deleted \<and> ?whole \<and> ?split")
proof -
  have survives: "cache m k = Some e' \<and> now \<le> expiresAt e'"
    if "cache (fst (fetchData_begin m now k options)) k = Some e'" for e'
    using that by (auto simp: begin_cache getFromCache_cache split: option.splits if_splits)
  have lookup: ?lookup
    using survives by blast
  have deleted: ?deleted
    by (simp add: begin_cache getFromCache_cache)
  have split: ?split
  proof
    assume a: "fetchData_begin m now k options = (m1, Started ls) \<and> list_all (foreign k) ops \<and>
      fetchData_resume throws (run throws m1 ops) later k fr options ls (Inl err) =
        (m3, Inr v, notes)"
    then have b: "fetchData_begin m now k options = (m1, Started ls)"
      and fo: "list_all (foreign k) ops"
      and r: "fetchData_resume throws (run throws m1 ops) later k fr options ls (Inl err) =
        (m3, Inr v, notes)"
      by simp_all
    from r obtain e' where e': "cache (run throws m1 ops) k = Some e'" "data e' = v"
      by (auto simp: resume_failure split: option.splits)
    have "cache m1 k = Some e'"
      using run_frame [OF started_loading(1) [OF b] fo, of throws] e'(1) by simp
    then have "cache (fst (fetchData_begin m now k options)) k = Some e'"
      using b by simp
    from survives [OF this] e'(2)
    show "\<exists>e'. cache m k = Some e' \<and> data e' = v \<and> now \<le> expiresAt e'"
      by blast
  qed
  have whole: ?whole
  proof
    assume a: "fetchData throws m now later k fr f options = (m2, Settled (Inr v), tr) \<and>
      WarnUsingCache k \<in> set tr"
    obtain m1' st where b: "fetchData_begin m now k options = (m1', st)"
      by (cases "fetchData_begin m now k options")
    show "\<exists>e'. cache m k = Some e' \<and> data e' = v \<and> now \<le> expiresAt e'"
    proof (cases st)
      case (Hit x)
      with a b show ?thesis by (auto simp add: fetchData_def)
    next
      case Waiting
      with a b show ?thesis by (auto simp add: fetchData_def)
    next
      case (Started ls')
      obtain settled calls where
        x: "executeWithRetry m1' f k (optRetryOnError options) = (settled, calls)"
        by (cases "executeWithRetry m1' f k (optRetryOnError options)")
      obtain m4 r notes' where res:
        "fetchData_resume throws m1' later k fr options ls' settled = (m4, r, notes')"
        by (cases "fetchData_resume throws m1' later k fr options ls' settled")
      have nw: "WarnUsingCache k \<notin> set calls"
        using executeWithRetry_no_warn [of k m1' f k "optRetryOnError options"] x by simp
      from a b Started x res have eq: "r = Inr v" "tr = calls @ notes'"
        by (simp_all add: fetchData_def)
      with a nw have "WarnUsingCache k \<in> set notes'" by simp
      from resume_warns [OF res this] eq(1)
      obtain e' where e': "cache m1' k = Some e'" "data e' = v" by auto
      then have "cache (fst (fetchData_begin m now k options)) k = Some e'"
        using b by simp
      from survives [OF this] e'(2) show ?thesis by blast
    qed
  qed
  show ?thesis
    by (intro conjI lookup deleted whole split)
qed

theorem fallback_not_expired_at_start_witness:
  "cache (fst (fetchData_begin (cachedAt0 60000) 30000 ''k'' (lastingOnce 60000))) ''k'' =
     Some \<lparr>data = JStr ''v'', timestamp = 0, expiresAt = 60000\<rparr> \<and>
   cache (cachedAt0 1000) ''k'' = Some \<lparr>data = JStr ''v'', timestamp = 0, expiresAt = 1000\<rparr> \<and>
   cache (fst (fetchData_begin (cachedAt0 1000) 2000 ''k'' (lastingOnce 1000))) ''k'' = None \<and>
   WarnUsingCache ''k'' \<in>
     set (snd (snd (fetchData quiet (cachedAt0 60000) 30000 35000 ''k'' 1 failing
                      (lastingOnce 60000)))) \<and>
   fst (snd (fetchData quiet (cachedAt0 60000) 30000 35000 ''k'' 1 failing (lastingOnce 60000))) =
     Settled (Inr (JStr ''v'')) \<and>
   snd (fetchData_begin (cachedAt0 60000) 30000 ''k'' (lastingOnce 60000)) =
     Started (getLoaderState (cachedAt0 60000) ''k'') \<and>
   list_all (foreign ''k'') [Poll 30100 ''k''] \<and>
   fst (snd (fetchData_resume quiet
               (run quiet (fst (fetchData_begin (cachedAt0 60000) 30000 ''k'' (lastingOnce 60000)))
                  [Poll 30100 ''k''])
               35000 ''k'' 1 (lastingOnce 60000) (getLoaderState (cachedAt0 60000) ''k'')
               (Inl (FetcherError ''unreachable'')))) = Inr (JStr ''v'') \<and>
   (30000 :: int) \<le> 60000"
  using
    fallback_not_expired_at_start [of "cachedAt0 60000" 30000 "''k''" "lastingOnce 60000"
      "\<lparr>data = JStr ''v'', timestamp = 0, expiresAt = 60000\<rparr>" quiet 35000 1 failing
      "fst (fetchData quiet (cachedAt0 60000) 30000 35000 ''k'' 1 failing (lastingOnce 60000))"
      "JStr ''v''"
      "snd (snd (fetchData quiet (cachedAt0 60000) 30000 35000 ''k'' 1 failing (lastingOnce 60000)))"
      "fst (fetchData_begin (cachedAt0 60000) 30000 ''k'' (lastingOnce 60000))"
      "getLoaderState (cachedAt0 60000) ''k''" "[Poll 30100 ''k'']"
      "FetcherError ''unreachable''"]
    fallback_not_expired_at_start [of "cachedAt0 1000" 2000 "''k''" "lastingOnce 1000"
      "\<lparr>data = JStr ''v'', timestamp = 0, expiresAt = 1000\<rparr>"]
  by (simp add: cachedAt0_eval block_defs caller_defs Let_def retryLoop_0 run_def)


section \<open>Callers that wait for a fetch in flight\<close>

lemma checkLoader_loading:
  "isLoading (getLoaderState m k) \<Longrightarrow> checkLoader m t k = (m, PollAgain)"
  by (simp add: checkLoader_def)

lemma checkLoader_unreadable:
  assumes "\<not> isLoading (getLoaderState m k)"
    and "cache m k = None \<or> (\<exists>e. cache m k = Some e \<and> expiresAt e < t)"
  shows "snd (checkLoader m t k) = PollRejected LoaderNoData"
  using assms by (auto simp: checkLoader_def getFromCache_def)


lemma resume_not_loading:
  "\<not> isLoading (getLoaderState (fst (fetchData_resume throws m t k fr options ls settled)) k)"
  by (cases settled)
     (simp_all add: resume_failure resume_success setLoaderState_def getLoaderState_def)

lemma resume_failure_cache:
  "cache (fst (fetchData_resume throws m t k fr options ls (Inl err))) = cache m"
  by (simp add: resume_failure setLoaderState_def)






lemma perform_idle:
  assumes "\<not> fetches k op" and "cache m k = None"
  shows "cache (perform throws m op) k = None"
    and "loaders (perform throws m op) k = loaders m k"
proof -
  show "cache (perform throws m op) k = None"
  proof (cases op)
    case (Begin now k' options)
    with assms show ?thesis by (simp add: begin_cache getFromCache_cache)
  next
    case (Resume now k' fr options ls settled)
    with assms show ?thesis by (simp add: resume_cache_other)
  next
    case (Poll now k')
    have "cache (fst (checkLoader m now k')) k \<noteq> Some e" for e
      using checkLoader_cache [of m now k' k e] assms(2) by auto
    with Poll show ?thesis by (cases "cache (fst (checkLoader m now k')) k") auto
  qed (use assms(2) in simp_all)
  show "loaders (perform throws m op) k = loaders m k"
  proof (cases op)
    case (Begin now k' options)
    with assms(1) have "k' \<noteq> k" by simp
    then have "loaders (fst (fetchData_begin m now k' options)) k = loaders m k"
      using begin_cases [of m now k' options] by (auto simp: setLoaderState_def)
    with Begin show ?thesis by simp
  next
    case (Resume now k' fr options ls settled)
    with assms(1) show ?thesis by (simp add: resume_loaders_other)
  qed simp_all
qed

lemma run_idle:
  assumes "list_all (\<lambda>op. \<not> fetches k op) ops" and "cache m k = None"
  shows "cache (run throws m ops) k = None \<and> loaders (run throws m ops) k = loaders m k"
  using assms
proof (induction ops arbitrary: m)
  case Nil
  then show ?case by (simp add: run_def)
next
  case (Cons op ops)
  let ?m' = "perform throws m op"
  have f: "\<not> fetches k op" and fs: "list_all (\<lambda>op. \<not> fetches k op) ops"
    using Cons.prems(1) by simp_all
  have c: "cache ?m' k = None" and l: "loaders ?m' k = loaders m k"
    using perform_idle [OF f Cons.prems(2), of throws] by simp_all
  have "run throws m (op # ops) = run throws ?m' ops" by (simp add: run_def)
  with Cons.IH [OF fs c] l show ?case by simp
qed

text \<open>
  Claim C9, as stated, fails: the waiting caller looks at the loading flag of the key, not
  at the fetch it found in flight. That fetch fails at 4800 and leaves no cache entry; a
  third call starts a fetch at 4850; the check of the waiting caller at 4855 finds the flag
  set and schedules the next; the new fetch succeeds at 4900, and the check at 4955
  resolves with its value.
\<close>

theorem waiting_through_next_fetch_counterexample:
  "snd (fetchData_begin waitedFor 55 ''k'' (lastingOnce 50)) = Waiting \<and>
   fst (snd (fetchData_resume quiet waitedFor 4800 ''k'' 1 (lastingOnce 50)
               (getLoaderState newManager ''k'') (Inl (FetcherError ''unreachable'')))) =
     Inl (FetcherError ''unreachable'') \<and>
   cache failedFetch ''k'' = None \<and>
   \<not> isLoading (getLoaderState failedFetch ''k'') \<and>
   snd (fetchData_begin failedFetch 4850 ''k'' (lastingOnce 1000)) =
     Started (getLoaderState failedFetch ''k'') \<and>
   checkLoader fetchingAgain 4855 ''k'' = (fetchingAgain, PollAgain) \<and>
   snd (checkLoader fetchedAgain 4955 ''k'') = PollResolved (JStr ''w'')"
  by (simp add: fetchedAgain_def fetchingAgain_def failedFetch_def waitedFor_def block_defs
        caller_defs Let_def)

text \<open>
  Claim C9, amended. A check of a waiting caller that finds a fetch for the key in flight
  schedules the next check. A check that finds none in flight, and in the cache no entry for
  the key or one that has expired, rejects with the error object built in
  \<^verbatim>\<open>waitForLoader\<close>. In particular, when the fetch in flight fails and the key has no
  cache entry, the caller that started the fetch rejects with the error of the fetcher, and
  the waiting caller rejects with the other error at its next check, whatever runs before
  that check but a block of another call for the key: the two errors differ.
\<close>

theorem waiter_rejects_with_own_error:
  "(\<not> isLoading (getLoaderState m k) \<and>
      (cache m k = None \<or> (\<exists>e. cache m k = Some e \<and> expiresAt e < t)) \<longrightarrow>
      snd (checkLoader m t k) = PollRejected LoaderNoData) \<and>
   (isLoading (getLoaderState m k) \<longrightarrow> checkLoader m t k = (m, PollAgain)) \<and>
   (cache m k = None \<and> list_all (\<lambda>op. \<not> fetches k op) ops \<longrightarrow>
      fst (snd (fetchData_resume throws m t1 k fr options ls (Inl err))) = Inl err \<and>
      snd (checkLoader
             (run throws (fst (fetchData_resume throws m t1 k fr options ls (Inl err))) ops)
             t2 k) = PollRejected LoaderNoData) \<and>
   LoaderNoData \<noteq> FetcherError msg"
  (is "?poll \<and> ?again \<and> ?both \<and> ?differ")
proof -
  have poll: ?poll
    using checkLoader_unreadable [of m k t] by blast
  have again: ?again
    using checkLoader_loading [of m k t] by blast
  have both: ?both
  proof
    assume a: "cache m k = None \<and> list_all (\<lambda>op. \<not> fetches k op) ops"
    let ?m' = "fst (fetchData_resume throws m t1 k fr options ls (Inl err))"
    have c: "cache ?m' k = None" using a by (simp add: resume_failure_cache)
    from run_idle [OF _ c, of ops throws] a
    have r: "cache (run throws ?m' ops) k = None"
      "loaders (run throws ?m' ops) k = loaders ?m' k"
      by simp_all
    have "\<not> isLoading (getLoaderState (run throws ?m' ops) k)"
      using resume_not_loading [of throws m t1 k fr options ls "Inl err"] r(2)
      by (simp add: getLoaderState_def)
    then have "snd (checkLoader (run throws ?m' ops) t2 k) = PollRejected LoaderNoData"
      using r(1) by (intro checkLoader_unreadable) simp_all
    then show "fst (snd (fetchData_resume throws m t1 k fr options ls (Inl err))) = Inl err \<and>
      snd (checkLoader (run throws ?m' ops) t2 k) = PollRejected LoaderNoData"
      using a by (simp add: resume_failure)
  qed
  show ?thesis by (intro conjI poll again both) simp
qed

theorem waiter_rejects_with_own_error_witness:
  "\<not> isLoading (getLoaderState (cachedAt0 50) ''k'') \<and>
   cache (cachedAt0 50) ''k'' = Some \<lparr>data = JStr ''v'', timestamp = 0, expiresAt = 50\<rparr> \<and>
   snd (checkLoader (cachedAt0 50) 155 ''k'') = PollRejected LoaderNoData \<and>
   isLoading (getLoaderState waitedFor ''k'') \<and>
   checkLoader waitedFor 155 ''k'' = (waitedFor, PollAgain) \<and>
   cache waitedFor ''k'' = None \<and>
   list_all (\<lambda>op. \<not> fetches ''k'' op)
     [Begin 4810 ''j'' (lastingOnce 50), Poll 4820 ''k'', Subscribe ''k'' 3] \<and>
   fst (snd (fetchData_resume quiet waitedFor 4800 ''k'' 1 (lastingOnce 50)
               (getLoaderState newManager ''k'') (Inl (FetcherError ''unreachable'')))) =
     Inl (FetcherError ''unreachable'') \<and>
   snd (checkLoader
          (run quiet failedFetch
             [Begin 4810 ''j'' (lastingOnce 50), Poll 4820 ''k'', Subscribe ''k'' 3])
          4855 ''k'') = PollRejected LoaderNoData"
  using
    waiter_rejects_with_own_error [of "cachedAt0 50" "''k''" 155]
    waiter_rejects_with_own_error [of waitedFor "''k''" 155
      "[Begin 4810 ''j'' (lastingOnce 50), Poll 4820 ''k'', Subscribe ''k'' 3]"
      quiet 4800 1 "lastingOnce 50" "getLoaderState newManager ''k''"
      "FetcherError ''unreachable''" 4855]
  by (simp add: cachedAt0_eval failedFetch_def waitedFor_def fetchData_begin_def
        getFromCache_def getLoaderState_def setLoaderState_def newManager_def lastingOnce_def
        Let_def)

section \<open>Subscribers\<close>

lemma notifyEach_count:
  "count_list (notifyEach throws subs d) (Notify cb d) = count_list subs cb"
  by (induction subs) auto

lemma notifyEach_notify:
  "Notify cb d' \<in> set (notifyEach throws subs d) \<Longrightarrow> cb \<in> set subs \<and> d' = d"
  by (induction subs) (auto split: if_splits)

lemma notifyEach_logged:
  "cb \<in> set subs \<Longrightarrow> throws cb d \<Longrightarrow> LogSubscriberError cb \<in> set (notifyEach throws subs d)"
  by (induction subs) auto

lemma distinct_count_one: "distinct xs \<Longrightarrow> x \<in> set xs \<Longrightarrow> count_list xs x = 1"
  by (induction xs) (auto simp: count_list_0_iff)

lemma executeWithRetry_no_notify:
  "count_list (snd (executeWithRetry m f k retry)) (Notify cb d) = 0"
  by (simp add: executeWithRetry_def retryLoop_0 split: sum.split)

lemma getFromCache_subscribers [simp]:
  "subscribers (fst (getFromCache m now k)) = subscribers m"
  by (simp add: getFromCache_def split: option.split)

lemma begin_subscribers [simp]:
  "subscribers (fst (fetchData_begin m now k options)) = subscribers m"
  using begin_cases [of m now k options] by (auto simp: setLoaderState_def)

text \<open>The subscriber lists the manager builds have no repetition.\<close>

lemma subscribe_distinct:
  assumes "\<forall>k subs. subscribers m k = Some subs \<longrightarrow> distinct subs"
  shows "\<forall>k subs. subscribers (subscribe m k' cb) k = Some subs \<longrightarrow> distinct subs"
  using assms by (auto simp: subscribe_def Let_def split: option.splits if_splits)

lemma unsubscribe_distinct:
  assumes "\<forall>k subs. subscribers m k = Some subs \<longrightarrow> distinct subs"
  shows "\<forall>k subs. subscribers (unsubscribe m k' cb) k = Some subs \<longrightarrow> distinct subs"
  using assms
  by (auto simp: unsubscribe_def Let_def distinct_removeAll split: option.splits if_splits)

text \<open>
  Claim C8. When the fetch of a \<^verbatim>\<open>fetchData\<close> call for a key succeeds with a value,
  every callback subscribed to the key at that moment is called exactly once with that
  value and no callback is called with anything else. A callback that throws is logged; the
  callbacks after it are still called, each once, and the call resolves with the value
  whatever the callbacks do.
\<close>

theorem subscriber_fan_out:
  assumes "subscribers m k = Some subs" and "distinct subs"
  shows "fst (snd (fetchData_resume throws m later k fr options ls (Inr d))) = Inr d \<and>
         (\<forall>cb \<in> set subs.
            count_list (snd (snd (fetchData_resume throws m later k fr options ls (Inr d))))
              (Notify cb d) = 1 \<and>
            (throws cb d \<longrightarrow>
               LogSubscriberError cb \<in>
                 set (snd (snd (fetchData_resume throws m later k fr options ls (Inr d)))))) \<and>
         (\<forall>cb d'. Notify cb d' \<in>
                    set (snd (snd (fetchData_resume throws m later k fr options ls (Inr d)))) \<longrightarrow>
                  cb \<in> set subs \<and> d' = d) \<and>
         (fetchData_begin m now k options = (m1, Started ls') \<and>
          executeWithRetry m1 f k (optRetryOnError options) = (Inr d, calls) \<longrightarrow>
            fst (snd (fetchData throws m now later k fr f options)) = Settled (Inr d) \<and>
            snd (snd (fetchData throws m now later k fr f options)) =
              calls @ notifyEach throws subs d \<and>
            (\<forall>cb \<in> set subs.
               count_list (snd (snd (fetchData throws m now later k fr f options)))
                 (Notify cb d) = 1))"
proof -
  have listed: "snd (snd (fetchData_resume throws m' later k fr options ls'' (Inr d))) =
      notifyEach throws subs d" if "subscribers m' k = Some subs" for m' ls''
    using that by (simp add: resume_success notifySubscribers_def)
  have once: "count_list (notifyEach throws subs d) (Notify cb d) = 1" if "cb \<in> set subs" for cb
    using that assms(2) by (simp add: notifyEach_count distinct_count_one)
  have whole: "fst (snd (fetchData throws m now later k fr f options)) = Settled (Inr d) \<and>
      snd (snd (fetchData throws m now later k fr f options)) = calls @ notifyEach throws subs d \<and>
      (\<forall>cb \<in> set subs.
         count_list (snd (snd (fetchData throws m now later k fr f options))) (Notify cb d) = 1)"
    if b: "fetchData_begin m now k options = (m1, Started ls')"
      and x: "executeWithRetry m1 f k (optRetryOnError options) = (Inr d, calls)"
  proof -
    have "subscribers m1 = subscribers m"
      using begin_subscribers [of m now k options] b by simp
    then have s1: "subscribers m1 k = Some subs" using assms(1) by simp
    have tr: "snd (snd (fetchData throws m now later k fr f options)) =
        calls @ notifyEach throws subs d"
      using listed [OF s1, of ls'] by (simp add: fetchData_started [OF b] x)
    have r: "fst (snd (fetchData throws m now later k fr f options)) = Settled (Inr d)"
      by (simp add: fetchData_started [OF b] x resume_success)
    have "count_list calls (Notify cb d) = 0" for cb
      using executeWithRetry_no_notify [of m1 f k "optRetryOnError options" cb d] x by simp
    then show ?thesis
      using tr r once by simp
  qed
  show ?thesis
    using listed [OF assms(1), of ls] once whole
    by (auto simp: resume_success dest: notifyEach_notify intro: notifyEach_logged)
qed

theorem subscriber_fan_out_witness:
  "subscribers (subscribe (subscribe newManager ''k'' 1) ''k'' 7) ''k'' = Some [1, 7] \<and>
   distinct [1 :: nat, 7] \<and> faulty 1 (JStr ''v'') \<and>
   snd (fetchData faulty (subscribe (subscribe newManager ''k'' 1) ''k'' 7) 0 10 ''k'' 1
          (yielding (JStr ''v'')) (lastingOnce 1000)) =
     (Settled (Inr (JStr ''v'')),
      [Invoke ''k'', Notify 1 (JStr ''v''), LogSubscriberError 1, Notify 7 (JStr ''v'')])"
  using subscriber_fan_out [of "subscribe (subscribe newManager ''k'' 1) ''k'' 7" "''k''" "[1, 7]"
      faulty 10 1 "lastingOnce 1000" "getLoaderState newManager ''k''" "JStr ''v''" 0
      "fst (fetchData_begin (subscribe (subscribe newManager ''k'' 1) ''k'' 7) 0 ''k''
              (lastingOnce 1000))"
      "getLoaderState newManager ''k''" "yielding (JStr ''v'')" "[Invoke ''k'']"]
  by (simp add: block_defs caller_defs Let_def retryLoop_0)


section \<open>The auto-refresh timer\<close>

lemma getFromCache_timer_fields [simp]:
  "timers (fst (getFromCache m now k)) = timers m"
  "refreshIntervals (fst (getFromCache m now k)) = refreshIntervals m"
  "nextHandle (fst (getFromCache m now k)) = nextHandle m"
  by (simp_all add: getFromCache_def split: option.split)

lemma begin_timer_fields [simp]:
  "timers (fst (fetchData_begin m now k options)) = timers m"
  "refreshIntervals (fst (fetchData_begin m now k options)) = refreshIntervals m"
  "nextHandle (fst (fetchData_begin m now k options)) = nextHandle m"
  using begin_cases [of m now k options] by (auto simp: setLoaderState_def)

lemma resume_subscribers [simp]:
  "subscribers (fst (fetchData_resume throws m t k fr options ls settled)) = subscribers m"
  by (cases settled) (simp_all add: resume_failure resume_success setLoaderState_def setCache_def)

lemma resume_timer_fields:
  assumes "\<not> optAutoRefresh options"
  shows "timers (fst (fetchData_resume throws m t k fr options ls settled)) = timers m"
    and "refreshIntervals (fst (fetchData_resume throws m t k fr options ls settled)) =
           refreshIntervals m"
    and "nextHandle (fst (fetchData_resume throws m t k fr options ls settled)) = nextHandle m"
  using assms
  by (cases settled; simp add: resume_failure resume_success setLoaderState_def setCache_def)+

lemma fetchData_state:
  "fst (fetchData throws m now later k fr f options) =
     (case snd (fetchData_begin m now k options) of
        Started ls \<Rightarrow>
          fst (fetchData_resume throws (fst (fetchData_begin m now k options)) later k fr options ls
                 (fst (executeWithRetry (fst (fetchData_begin m now k options)) f k
                         (optRetryOnError options))))
      | _ \<Rightarrow> fst (fetchData_begin m now k options))"
  by (cases "fetchData_begin m now k options")
     (simp add: fetchData_def case_prod_beta Let_def split: started.split)

lemma fetchData_subscribers [simp]:
  "subscribers (fst (fetchData throws m now later k fr f options)) = subscribers m"
  by (simp add: fetchData_state split: started.split)

lemma fetchData_timer_fields:
  assumes "\<not> optAutoRefresh options"
  shows "timers (fst (fetchData throws m now later k fr f options)) = timers m"
    and "refreshIntervals (fst (fetchData throws m now later k fr f options)) = refreshIntervals m"
    and "nextHandle (fst (fetchData throws m now later k fr f options)) = nextHandle m"
  using assms by (simp_all add: fetchData_state resume_timer_fields split: started.split)

lemma begin_cache_other:
  "k' \<noteq> k \<Longrightarrow> cache (fst (fetchData_begin m now k' options)) k = cache m k"
  by (simp add: begin_cache getFromCache_cache)

lemma fetchData_cache_other:
  "k' \<noteq> k \<Longrightarrow> cache (fst (fetchData throws m now later k' fr f options)) k = cache m k"
  by (simp add: fetchData_state resume_cache_other begin_cache_other split: started.split)

lemma resume_no_invoke:
  "Invoke k \<notin> set (snd (snd (fetchData_resume throws m t k' fr options ls settled)))"
  by (cases settled)
     (auto simp: resume_failure resume_success notifySubscribers_def notifyEach_no_invoke
        split: option.splits)

lemma fetchData_invokes:
  "Invoke k \<in> set (snd (snd (fetchData throws m now later k' fr f options))) \<Longrightarrow> k = k'"
proof -
  assume a: "Invoke k \<in> set (snd (snd (fetchData throws m now later k' fr f options)))"
  obtain m1 st where b: "fetchData_begin m now k' options = (m1, st)"
    by (cases "fetchData_begin m now k' options")
  show "k = k'"
  proof (cases st)
    case (Started ls)
    with a b show ?thesis
      by (auto simp: fetchData_started executeWithRetry_invokes resume_no_invoke)
  qed (use a b in \<open>auto simp: fetchData_def\<close>)
qed

lemma optAutoRefresh_off [simp]: "\<not> optAutoRefresh (options\<lparr>autoRefresh := Some False\<rparr>)"
  by (simp add: optAutoRefresh_def)

lemma intervalTick_state:
  "fst (intervalTick throws m now later h f) =
     (case timers m h of
        None \<Rightarrow> m
      | Some t \<Rightarrow>
          (case subscribers m (timerKey t) of
             None \<Rightarrow> m
           | Some subs \<Rightarrow>
               if subs \<noteq> [] then
                 fst (fetchData throws m now later (timerKey t) (timerFetcher t) f
                        ((timerOptions t)\<lparr>autoRefresh := Some False\<rparr>))
               else m))"
  by (auto simp: intervalTick_def split: option.split prod.split promise.split sum.split)

lemma intervalTick_trace:
  "set (snd (intervalTick throws m now later h f)) \<subseteq>
     (case timers m h of
        None \<Rightarrow> {}
      | Some t \<Rightarrow>
          (case subscribers m (timerKey t) of
             None \<Rightarrow> {}
           | Some subs \<Rightarrow>
               set (snd (snd (fetchData throws m now later (timerKey t) (timerFetcher t) f
                               ((timerOptions t)\<lparr>autoRefresh := Some False\<rparr>)))) \<union>
               range (LogAutoRefreshFailed (timerKey t))))"
  by (auto simp: intervalTick_def split: option.split prod.split promise.split sum.split)

lemma intervalTick_fields [simp]:
  "subscribers (fst (intervalTick throws m now later h f)) = subscribers m"
  "timers (fst (intervalTick throws m now later h f)) = timers m"
  "refreshIntervals (fst (intervalTick throws m now later h f)) = refreshIntervals m"
  "nextHandle (fst (intervalTick throws m now later h f)) = nextHandle m"
  by (simp_all add: intervalTick_state fetchData_timer_fields split: option.split)

lemma intervalTick_unsubscribed:
  assumes "subscribers m k = None"
  shows "Invoke k \<notin> set (snd (intervalTick throws m now later h f))"
    and "cache (fst (intervalTick throws m now later h f)) k = cache m k"
proof -
  show "Invoke k \<notin> set (snd (intervalTick throws m now later h f))"
  proof
    assume a: "Invoke k \<in> set (snd (intervalTick throws m now later h f))"
    with intervalTick_trace [of throws m now later h f]
    obtain t subs where t: "timers m h = Some t" "subscribers m (timerKey t) = Some subs"
      and "Invoke k \<in>
        set (snd (snd (fetchData throws m now later (timerKey t) (timerFetcher t) f
                         ((timerOptions t)\<lparr>autoRefresh := Some False\<rparr>)))) \<union>
        range (LogAutoRefreshFailed (timerKey t))"
      by (cases "timers m h"; cases "subscribers m (timerKey (the (timers m h)))") auto
    then have "Invoke k \<in>
        set (snd (snd (fetchData throws m now later (timerKey t) (timerFetcher t) f
                         ((timerOptions t)\<lparr>autoRefresh := Some False\<rparr>))))"
      by auto
    then have "k = timerKey t" by (rule fetchData_invokes)
    with t(2) assms show False by simp
  qed
  have "cache (fst (fetchData throws m now later (timerKey t) fr f options)) k = cache m k"
    if "subscribers m (timerKey t) = Some subs" for t subs fr options
  proof -
    from that assms have "timerKey t \<noteq> k" by auto
    then show ?thesis by (rule fetchData_cache_other)
  qed
  then show "cache (fst (intervalTick throws m now later h f)) k = cache m k"
    by (auto simp: intervalTick_state split: option.split)
qed

lemma runTicks_unsubscribed:
  assumes "subscribers m k = None"
  shows "Invoke k \<notin> set (snd (runTicks throws m ticks)) \<and>
         cache (fst (runTicks throws m ticks)) k = cache m k \<and>
         timers (fst (runTicks throws m ticks)) = timers m \<and>
         subscribers (fst (runTicks throws m ticks)) = subscribers m"
  using assms
proof (induction ticks arbitrary: m)
  case Nil
  then show ?case by simp
next
  case (Cons tick ticks)
  obtain h now later f where tick: "tick = (h, now, later, f)"
    by (cases tick)
  let ?m' = "fst (intervalTick throws m now later h f)"
  have "subscribers ?m' k = None" using Cons.prems by simp
  from Cons.IH [OF this] intervalTick_unsubscribed [OF Cons.prems, of throws now later h f]
  show ?case by (simp add: tick Let_def)
qed

text \<open>The manager keeps its timers recorded.\<close>

lemma timersRecorded_newManager: "timersRecorded newManager"
  by (simp add: timersRecorded_def newManager_def)

lemma timersRecorded_setupAutoRefresh:
  assumes "timersRecorded m"
  shows "timersRecorded (setupAutoRefresh m k fr options)"
  unfolding timersRecorded_def
proof (intro allI impI)
  fix h t
  assume a: "timers (setupAutoRefresh m k fr options) h = Some t"
  show "refreshIntervals (setupAutoRefresh m k fr options) (timerKey t) = Some h \<and>
        h < nextHandle (setupAutoRefresh m k fr options)"
  proof (cases "h = nextHandle m")
    case True
    with a show ?thesis
      by (auto simp: setupAutoRefresh_def Let_def split: option.splits)
  next
    case False
    with a have old: "timers m h = Some t" and kept: "refreshIntervals m k \<noteq> Some h"
      by (auto simp: setupAutoRefresh_def Let_def split: option.splits if_splits)
    from assms old have rec: "refreshIntervals m (timerKey t) = Some h" "h < nextHandle m"
      by (auto simp: timersRecorded_def)
    with kept have "timerKey t \<noteq> k" by auto
    with rec show ?thesis
      by (auto simp: setupAutoRefresh_def Let_def split: option.splits)
  qed
qed

lemma timersRecorded_unsubscribe:
  assumes "timersRecorded m"
  shows "timersRecorded (unsubscribe m k cb)"
  unfolding timersRecorded_def
proof (intro allI impI)
  fix h t
  assume a: "timers (unsubscribe m k cb) h = Some t"
  then have old: "timers m h = Some t"
    by (auto simp: unsubscribe_def Let_def split: option.splits if_splits)
  from assms old have rec: "refreshIntervals m (timerKey t) = Some h" "h < nextHandle m"
    by (auto simp: timersRecorded_def)
  with a show "refreshIntervals (unsubscribe m k cb) (timerKey t) = Some h \<and>
        h < nextHandle (unsubscribe m k cb)"
    by (auto simp: unsubscribe_def Let_def split: option.splits if_splits)
qed

lemma timersRecorded_resume:
  assumes "timersRecorded m"
  shows "timersRecorded (fst (fetchData_resume throws m t k fr options ls settled))"
proof (cases settled)
  case (Inl err)
  with assms show ?thesis
    by (simp add: resume_failure setLoaderState_def timersRecorded_def)
next
  case (Inr d)
  have "timersRecorded (setCache m t k d (optCacheDuration options))"
    using assms by (simp add: setCache_def timersRecorded_def)
  then have "timersRecorded (if optAutoRefresh options
         then setupAutoRefresh (setCache m t k d (optCacheDuration options)) k fr options
         else setCache m t k d (optCacheDuration options))"
    by (simp add: timersRecorded_setupAutoRefresh)
  then show ?thesis
    by (simp add: Inr resume_success setLoaderState_def timersRecorded_def)
qed

lemma timersRecorded_perform:
  assumes "timersRecorded m"
  shows "timersRecorded (perform throws m op)"
proof (cases op)
  case (Begin now k options)
  with assms show ?thesis by (simp add: timersRecorded_def)
next
  case (Resume now k fr options ls settled)
  with assms show ?thesis by (simp add: timersRecorded_resume)
next
  case (Poll now k)
  obtain m1 cached where g: "getFromCache m now k = (m1, cached)"
    by (cases "getFromCache m now k")
  have "timers m1 = timers m" "refreshIntervals m1 = refreshIntervals m"
    "nextHandle m1 = nextHandle m"
    using getFromCache_timer_fields [of m now k] g by simp_all
  with assms Poll show ?thesis
    by (simp add: checkLoader_def g Let_def timersRecorded_def)
next
  case (Subscribe k cb)
  with assms show ?thesis
    by (simp add: subscribe_def Let_def timersRecorded_def split: option.split)
next
  case (Unsubscribe k cb)
  with assms show ?thesis by (simp add: timersRecorded_unsubscribe)
qed

lemma timersRecorded_run:
  "timersRecorded m \<Longrightarrow> timersRecorded (run throws m ops)"
  unfolding run_def by (induction ops arbitrary: m) (simp_all add: timersRecorded_perform)

lemma timersRecorded_reachable: "timersRecorded (run throws newManager ops)"
  by (rule timersRecorded_run [OF timersRecorded_newManager])

lemma checkLoader_subscribers [simp]:
  "subscribers (fst (checkLoader m now k)) = subscribers m"
proof -
  obtain m1 cached where g: "getFromCache m now k = (m1, cached)"
    by (cases "getFromCache m now k")
  have "subscribers m1 = subscribers m"
    using getFromCache_subscribers [of m now k] g by simp
  then show ?thesis by (simp add: checkLoader_def g Let_def)
qed

lemma perform_unsubscribed:
  assumes "subscribers m k = None" and "\<not> subscribesTo k op"
  shows "subscribers (perform throws m op) k = None"
proof (cases op)
  case (Subscribe k' cb)
  with assms show ?thesis
    by (simp add: subscribe_def Let_def split: option.split)
next
  case (Unsubscribe k' cb)
  with assms(1) show ?thesis
    by (auto simp: unsubscribe_def Let_def split: option.split)
qed (use assms(1) in simp_all)

lemma run_unsubscribed:
  assumes "subscribers m k = None" and "list_all (\<lambda>op. \<not> subscribesTo k op) ops"
  shows "subscribers (run throws m ops) k = None"
  using assms unfolding run_def
  by (induction ops arbitrary: m) (simp_all add: perform_unsubscribed)

text \<open>
  Claim C7. When the last callback subscribed to a key is unsubscribed, the interval timer
  recorded for the key is cleared and its record deleted, no armed timer is left for the
  key, and the cache is not touched. From then on, however often the remaining timers
  fire, none of the firings invokes the fetcher for the key or changes its cache entry; and
  whatever else the manager is asked to do in between, no firing invokes the fetcher for the
  key before a callback is subscribed to it again.
\<close>

theorem last_unsubscribe_stops_refresh:
  assumes "timersRecorded m" and "subscribers m k = Some [cb]"
  shows "cache (unsubscribe m k cb) = cache m \<and>
         subscribers (unsubscribe m k cb) k = None \<and>
         refreshIntervals (unsubscribe m k cb) k = None \<and>
         (\<forall>h t. timers (unsubscribe m k cb) h = Some t \<longrightarrow> timerKey t \<noteq> k) \<and>
         (\<forall>h. refreshIntervals m k = Some h \<longrightarrow> timers (unsubscribe m k cb) h = None) \<and>
         Invoke k \<notin> set (snd (runTicks throws (unsubscribe m k cb) ticks)) \<and>
         cache (fst (runTicks throws (unsubscribe m k cb) ticks)) k = cache m k \<and>
         timers (fst (runTicks throws (unsubscribe m k cb) ticks)) = timers (unsubscribe m k cb) \<and>
         (list_all (\<lambda>op. \<not> subscribesTo k op) ops \<longrightarrow>
            Invoke k \<notin> set (snd (runTicks throws (run throws (unsubscribe m k cb) ops) ticks)))"
proof -
  let ?m' = "unsubscribe m k cb"
  have subs: "subscribers ?m' k = None"
    using assms(2) by (simp add: unsubscribe_def Let_def split: option.split)
  have rec: "refreshIntervals ?m' k = None"
    using assms(2) by (simp add: unsubscribe_def Let_def split: option.split)
  have gone: "timerKey t \<noteq> k" if "timers ?m' h = Some t" for h t
  proof
    assume "timerKey t = k"
    moreover have "refreshIntervals ?m' (timerKey t) = Some h"
      using timersRecorded_unsubscribe [OF assms(1), of k cb] that
      by (simp add: timersRecorded_def)
    ultimately show False using rec by simp
  qed
  have cleared: "timers ?m' h = None" if "refreshIntervals m k = Some h" for h
    using assms(2) that by (simp add: unsubscribe_def Let_def)
  have later: "Invoke k \<notin> set (snd (runTicks throws (run throws ?m' ops) ticks))"
    if "list_all (\<lambda>op. \<not> subscribesTo k op) ops"
    using runTicks_unsubscribed [OF run_unsubscribed [OF subs that], of throws throws ticks]
    by simp
  from runTicks_unsubscribed [OF subs, of throws ticks] gone cleared subs rec later
  show ?thesis by auto
qed

theorem last_unsubscribe_stops_refresh_witness:
  "timersRecorded armed \<and> subscribers armed ''k'' = Some [7] \<and>
   refreshIntervals armed ''k'' = Some 1 \<and> timers armed 1 \<noteq> None \<and>
   cache (unsubscribe armed ''k'' 7) = cache armed \<and>
   timers (unsubscribe armed ''k'' 7) 1 = None \<and>
   Invoke ''k'' \<notin>
     set (snd (runTicks quiet (unsubscribe armed ''k'' 7)
                 [(1, 1010, 1010, failing), (1, 2010, 2010, failing)])) \<and>
   list_all (\<lambda>op. \<not> subscribesTo ''k'' op)
     [Begin 2500 ''k'' (lasting 1000),
      Resume 2600 ''k'' 1 (lasting 1000) (getLoaderState armed ''k'') (Inr (JStr ''w''))] \<and>
   Invoke ''k'' \<notin>
     set (snd (runTicks quiet
                 (run quiet (unsubscribe armed ''k'' 7)
                    [Begin 2500 ''k'' (lasting 1000),
                     Resume 2600 ''k'' 1 (lasting 1000) (getLoaderState armed ''k'')
                       (Inr (JStr ''w''))])
                 [(2, 3600, 3600, failing), (2, 4600, 4600, failing)]))"
proof -
  have r: "timersRecorded armed"
    by (simp add: timersRecorded_def armed_eval)
  have s: "subscribers armed ''k'' = Some [7]"
    by (simp add: armed_eval)
  have o: "list_all (\<lambda>op. \<not> subscribesTo ''k'' op)
     [Begin 2500 ''k'' (lasting 1000),
      Resume 2600 ''k'' 1 (lasting 1000) (getLoaderState armed ''k'') (Inr (JStr ''w''))]"
    by simp
  from last_unsubscribe_stops_refresh [OF r s, of quiet
      "[(1, 1010, 1010, failing), (1, 2010, 2010, failing)]"]
    last_unsubscribe_stops_refresh [OF r s, of quiet
      "[(2, 3600, 3600, failing), (2, 4600, 4600, failing)]"
      "[Begin 2500 ''k'' (lasting 1000),
        Resume 2600 ''k'' 1 (lasting 1000) (getLoaderState armed ''k'') (Inr (JStr ''w''))]"]
    r s o
  show ?thesis by (simp add: armed_eval)
qed


section \<open>The retry policy within a call\<close>








section \<open>The backoff window\<close>

lemma forget_fields [simp]:
  "cache (forgetRetryAfter m) = cache m"
  "subscribers (forgetRetryAfter m) = subscribers m"
  "refreshIntervals (forgetRetryAfter m) = refreshIntervals m"
  "timers (forgetRetryAfter m) = timers m"
  "nextHandle (forgetRetryAfter m) = nextHandle m"
  "loaders (forgetRetryAfter m) k = map_option (\<lambda>st. st\<lparr>retryAfter := None\<rparr>) (loaders m k)"
  by (simp_all add: forgetRetryAfter_def)

lemma forget_getLoaderState:
  "getLoaderState (forgetRetryAfter m) k = (getLoaderState m k)\<lparr>retryAfter := None\<rparr>"
  by (simp add: getLoaderState_def split: option.split)

lemma forget_idem [simp]: "forgetRetryAfter (forgetRetryAfter m) = forgetRetryAfter m"
  by (simp add: forgetRetryAfter_def fun_eq_iff option.map_comp comp_def)

lemma forget_setLoaderState:
  "forgetRetryAfter (setLoaderState m k st) =
   setLoaderState (forgetRetryAfter m) k (st\<lparr>retryAfter := None\<rparr>)"
  by (simp add: forgetRetryAfter_def setLoaderState_def fun_eq_iff)

lemma forget_setCache:
  "forgetRetryAfter (setCache m t k d duration) = setCache (forgetRetryAfter m) t k d duration"
  by (simp add: forgetRetryAfter_def setCache_def)

lemma forget_setupAutoRefresh:
  "forgetRetryAfter (setupAutoRefresh m k fr options) =
   setupAutoRefresh (forgetRetryAfter m) k fr options"
  by (simp add: forgetRetryAfter_def setupAutoRefresh_def Let_def split: option.split)

lemma forget_getFromCache:
  "getFromCache (forgetRetryAfter m) now k =
     (forgetRetryAfter (fst (getFromCache m now k)), snd (getFromCache m now k))"
  by (simp add: getFromCache_def forgetRetryAfter_def split: option.split)

lemma forget_shouldRefresh [simp]:
  "shouldRefresh (forgetRetryAfter m) now k crit = shouldRefresh m now k crit"
  by (simp add: shouldRefresh_def)

lemma forget_executeWithRetry [simp]:
  "executeWithRetry (forgetRetryAfter m) f k retry = executeWithRetry m f k retry"
  by (simp add: executeWithRetry_def forget_getLoaderState)

lemma forget_notifySubscribers [simp]:
  "notifySubscribers throws (forgetRetryAfter m) k d = notifySubscribers throws m k d"
  by (simp add: notifySubscribers_def)


lemma forget_begin:
  "fetchData_begin (forgetRetryAfter m) now k options =
     (forgetRetryAfter (fst (fetchData_begin m now k options)),
      (case snd (fetchData_begin m now k options) of
         Started ls \<Rightarrow> Started (ls\<lparr>retryAfter := None\<rparr>)
       | Hit v \<Rightarrow> Hit v
       | Waiting \<Rightarrow> Waiting))"
  by (simp add: fetchData_begin_def forget_getFromCache forget_getLoaderState
        forget_setLoaderState case_prod_beta Let_def)

lemma forget_resume:
  assumes "errorCount ls' = errorCount ls"
  shows "snd (fetchData_resume throws (forgetRetryAfter m) t k fr options ls' settled) =
         snd (fetchData_resume throws m t k fr options ls settled)"
    and "forgetRetryAfter (fst (fetchData_resume throws (forgetRetryAfter m) t k fr options ls' settled)) =
         forgetRetryAfter (fst (fetchData_resume throws m t k fr options ls settled))"
  using assms
  by (cases settled;
      simp add: resume_failure resume_success forget_setLoaderState forget_setCache
        forget_setupAutoRefresh)+

lemma forget_fetchData:
  "snd (fetchData throws (forgetRetryAfter m) now later k fr f options) =
   snd (fetchData throws m now later k fr f options)"
  "forgetRetryAfter (fst (fetchData throws (forgetRetryAfter m) now later k fr f options)) =
   forgetRetryAfter (fst (fetchData throws m now later k fr f options))"
proof -
  obtain m1 st where b: "fetchData_begin m now k options = (m1, st)"
    by (cases "fetchData_begin m now k options")
  show "snd (fetchData throws (forgetRetryAfter m) now later k fr f options) =
   snd (fetchData throws m now later k fr f options)"
  proof (cases st)
    case (Started ls)
    have fb: "fetchData_begin (forgetRetryAfter m) now k options =
        (forgetRetryAfter m1, Started (ls\<lparr>retryAfter := None\<rparr>))"
      by (simp add: forget_begin b Started)
    show ?thesis
      using forget_resume(1) [of "ls\<lparr>retryAfter := None\<rparr>" ls throws m1 later k fr options]
      by (simp add: fetchData_started [OF fb] fetchData_started [OF b [unfolded Started]])
  qed (simp_all add: fetchData_def forget_begin b)
  show "forgetRetryAfter (fst (fetchData throws (forgetRetryAfter m) now later k fr f options)) =
   forgetRetryAfter (fst (fetchData throws m now later k fr f options))"
  proof (cases st)
    case (Started ls)
    have fb: "fetchData_begin (forgetRetryAfter m) now k options =
        (forgetRetryAfter m1, Started (ls\<lparr>retryAfter := None\<rparr>))"
      by (simp add: forget_begin b Started)
    show ?thesis
      using forget_resume(2) [of "ls\<lparr>retryAfter := None\<rparr>" ls throws m1 later k fr options]
      by (simp add: fetchData_started [OF fb] fetchData_started [OF b [unfolded Started]])
  qed (simp_all add: fetchData_def forget_begin b)
qed

lemma intervalTick_trace_eq:
  "snd (intervalTick throws m now later h f) =
     (case timers m h of
        None \<Rightarrow> []
      | Some t \<Rightarrow>
          (case subscribers m (timerKey t) of
             None \<Rightarrow> []
           | Some subs \<Rightarrow>
               if subs \<noteq> [] then
                 snd (snd (fetchData throws m now later (timerKey t) (timerFetcher t) f
                             ((timerOptions t)\<lparr>autoRefresh := Some False\<rparr>))) @
                 (case fst (snd (fetchData throws m now later (timerKey t) (timerFetcher t) f
                                   ((timerOptions t)\<lparr>autoRefresh := Some False\<rparr>))) of
                    Settled (Inl err) \<Rightarrow> [LogAutoRefreshFailed (timerKey t) err]
                  | _ \<Rightarrow> [])
               else []))"
  by (auto simp: intervalTick_def split: option.split prod.split promise.split sum.split)

lemma forget_intervalTick:
  "snd (intervalTick throws (forgetRetryAfter m) now later h f) =
   snd (intervalTick throws m now later h f)"
  "forgetRetryAfter (fst (intervalTick throws (forgetRetryAfter m) now later h f)) =
   forgetRetryAfter (fst (intervalTick throws m now later h f))"
  by (simp_all add: intervalTick_trace_eq intervalTick_state forget_fetchData
        split: option.split)

lemma retryTime_exact:
  assumes "0 \<le> t" and "t \<le> 2000000000000" and "n \<le> 15"
  shows "retryTime t n = Exact (of_int t + (3 / 2) ^ n * 1000)"
proof -
  have j: "(2 :: rat) ^ (n - 3) \<le> 2 ^ 12"
    using assms(3) by (intro power_increasing) simp_all
  have d: "(3 / 2 :: rat) ^ n \<le> (3 / 2) ^ 15"
    using assms(3) by (intro power_increasing) simp_all
  have "(of_int t :: rat) \<le> 2000000000000"
    using assms(2) by (metis of_int_le_iff of_int_numeral)
  with d have "(of_int t + (3 / 2) ^ n * 1000 :: rat) \<le> 2000000000000 + (3 / 2) ^ 15 * 1000"
    by (intro add_mono mult_right_mono) simp_all
  moreover have "(0 :: rat) \<le> of_int t + (3 / 2) ^ n * 1000"
    using assms(1) by simp
  ultimately have "(of_int t + (3 / 2) ^ n * 1000) * 2 ^ (n - 3) \<le>
      (2000000000000 + (3 / 2) ^ 15 * 1000 :: rat) * 2 ^ 12"
    using j by (intro mult_mono) simp_all
  also have "\<dots> < 2 ^ 53"
    by (simp add: power_divide)
  finally show ?thesis
    using assms(1) by (simp add: retryTime_def backoffMultiplier_def)
qed

text \<open>
  Claim C6, as stated, fails: nothing reads \<^verbatim>\<open>retryAfter\<close>. The timer of
  \<open>''k''\<close>, armed with a period of 1000 ms, fires at 2010 and its call fails at 6800, so
  that \<^verbatim>\<open>retryAfter\<close> is 8300; the timer fires again at 7010 and invokes the fetcher.
\<close>

theorem backoff_counterexample:
  "retryAfter (getLoaderState backedOff ''k'') = Some (Exact 8300) \<and>
   snd (intervalTick quiet backedOff 7010 7020 1 (yielding (JStr ''w''))) =
     [Invoke ''k'', Notify 7 (JStr ''w'')]"
  by (simp add: backedOff_eval armed_eval block_defs caller_defs Let_def retryLoop_0)

text \<open>
  Claim C6, amended. After a \<^verbatim>\<open>fetchData\<close> call for a key fails, the loader state
  of the key holds the failure count, one more than before the call, and
  \<^verbatim>\<open>retryAfter\<close>, the double computed as the time of the failure plus
  \<open>1.5 ^ count * 1000\<close> ms: exactly that number up to the 15th consecutive failure at
  clock values up to \<open>2 * 10 ^ 12\<close>, a rounded one where the arithmetic is not exact.
  Neither a firing of the auto-refresh timer nor a call made by a caller is blocked by it:
  what either returns, invokes, notifies and logs, and the manager it leaves behind but for
  the \<^verbatim>\<open>retryAfter\<close> fields, is the same as with every \<^verbatim>\<open>retryAfter\<close> erased.
\<close>

theorem retryAfter_stored_never_read:
  "getLoaderState (fst (fetchData_resume throws m t k fr options ls (Inl err))) k =
     \<lparr>isLoading = False, lastFetch = t, errorCount = errorCount ls + 1,
      retryAfter = Some (retryTime t (errorCount ls + 1))\<rparr> \<and>
   (0 \<le> t \<and> t \<le> 2000000000000 \<and> errorCount ls < 15 \<longrightarrow>
      retryTime t (errorCount ls + 1) = Exact (of_int t + (3 / 2) ^ (errorCount ls + 1) * 1000)) \<and>
   snd (fetchData throws (forgetRetryAfter m) now later k fr f options) =
     snd (fetchData throws m now later k fr f options) \<and>
   forgetRetryAfter (fst (fetchData throws (forgetRetryAfter m) now later k fr f options)) =
     forgetRetryAfter (fst (fetchData throws m now later k fr f options)) \<and>
   snd (intervalTick throws (forgetRetryAfter m) now later h f) =
     snd (intervalTick throws m now later h f) \<and>
   forgetRetryAfter (fst (intervalTick throws (forgetRetryAfter m) now later h f)) =
     forgetRetryAfter (fst (intervalTick throws m now later h f))"
proof -
  have stored: "getLoaderState (fst (fetchData_resume throws m t k fr options ls (Inl err))) k =
     \<lparr>isLoading = False, lastFetch = t, errorCount = errorCount ls + 1,
      retryAfter = Some (retryTime t (errorCount ls + 1))\<rparr>"
    by (simp add: resume_failure setLoaderState_def getLoaderState_def)
  have exact: "retryTime t (errorCount ls + 1) =
      Exact (of_int t + (3 / 2) ^ (errorCount ls + 1) * 1000)"
    if "0 \<le> t" and "t \<le> 2000000000000" and "errorCount ls < 15"
    using that by (intro retryTime_exact) simp_all
  show ?thesis
    using stored exact by (simp add: forget_fetchData forget_intervalTick)
qed

theorem retryAfter_stored_never_read_witness:
  "getLoaderState backedOff ''k'' =
     \<lparr>isLoading = False, lastFetch = 6800, errorCount = 1, retryAfter = Some (Exact 8300)\<rparr> \<and>
   (0 :: int) \<le> 6800 \<and> (6800 :: int) \<le> 2000000000000 \<and>
   errorCount (getLoaderState armed ''k'') < 15 \<and>
   retryTime 6800 (errorCount (getLoaderState armed ''k'') + 1) = Exact 8300 \<and>
   retryAfter (getLoaderState (forgetRetryAfter backedOff) ''k'') = None \<and>
   snd (intervalTick quiet (forgetRetryAfter backedOff) 7010 7020 1 (yielding (JStr ''w''))) =
     [Invoke ''k'', Notify 7 (JStr ''w'')] \<and>
   snd (intervalTick quiet backedOff 7010 7020 1 (yielding (JStr ''w''))) =
     [Invoke ''k'', Notify 7 (JStr ''w'')]"
  using retryAfter_stored_never_read [of quiet backedOff 6800 "''k''" 1 "lasting 1000"
      "getLoaderState armed ''k''" "FetcherError ''unreachable''" 7010 7020
      "yielding (JStr ''w'')" 1]
  by (simp add: backedOff_eval armed_eval block_defs caller_defs forgetRetryAfter_def Let_def
        retryLoop_0)

end
